theory Spec2Isabelle
  imports Complex_Main "HOL-Library.AList"
begin

section \<open>Errors and the error-passing bind\<close>

text \<open>
  Every exception the two scripts can raise before the solver is called is a value.
  \<open>ValueError msg\<close> is a \<open>raise ValueError(msg)\<close> of the sources, or one raised by a
  library call with the library's own message. \<open>ConversionError tok\<close> is the
  \<open>ValueError\<close> that \<open>int(tok)\<close> or \<open>float(tok)\<close> raises for a token it does not
  accept; it is kept apart because the parser never catches or rewrites it.
  \<open>UsageError\<close> is \<open>parser.error(...)\<close> of the command line: a usage message and exit
  status 2.
\<close>

datatype error =
    ValueError string
  | ConversionError string
  | IndexError
  | KeyError
  | ZeroDivisionError
  | UsageError

definition ebind :: "error + 'a \<Rightarrow> ('a \<Rightarrow> error + 'b) \<Rightarrow> error + 'b" where
  "ebind m f = (case m of Inl e \<Rightarrow> Inl e | Inr x \<Rightarrow> f x)"

section \<open>The random source\<close>

text \<open>
  \<open>random.Random\<close> is a library object. Its state is a value of an arbitrary type
  \<open>'g\<close>, and the methods the generator calls are the fields of a record: each takes
  the state and returns its result with the next state. Python floats are modelled as
  reals. Nothing is assumed of these functions except where a theorem says so.
\<close>

record 'g rng_lib =
  rnd_random :: "'g \<Rightarrow> real \<times> 'g"
  rnd_randint :: "int \<Rightarrow> int \<Rightarrow> 'g \<Rightarrow> int \<times> 'g"
  rnd_randrange :: "int \<Rightarrow> int \<Rightarrow> 'g \<Rightarrow> int \<times> 'g"
  rnd_paretovariate :: "real \<Rightarrow> 'g \<Rightarrow> real \<times> 'g"
  rnd_sample :: "int list \<Rightarrow> int \<Rightarrow> 'g \<Rightarrow> int list \<times> 'g"

text \<open>The argument checks of the library calls: an empty range or a sample larger than
  the population raises \<open>ValueError\<close>.\<close>

definition py_randint :: "'g rng_lib \<Rightarrow> int \<Rightarrow> int \<Rightarrow> 'g \<Rightarrow> error + (int \<times> 'g)" where
  "py_randint L a b g =
     (if b < a then Inl (ValueError ''empty range in randint'') else Inr (rnd_randint L a b g))"

definition py_randrange :: "'g rng_lib \<Rightarrow> int \<Rightarrow> int \<Rightarrow> 'g \<Rightarrow> error + (int \<times> 'g)" where
  "py_randrange L a b g =
     (if b \<le> a then Inl (ValueError ''empty range in randrange'') else Inr (rnd_randrange L a b g))"

definition py_sample :: "'g rng_lib \<Rightarrow> int list \<Rightarrow> int \<Rightarrow> 'g \<Rightarrow> error + (int list \<times> 'g)" where
  "py_sample L pop k g =
     (if k < 0 \<or> int (length pop) < k
      then Inl (ValueError ''Sample larger than population or is negative'')
      else Inr (rnd_sample L pop k g))"

section \<open>gen_instances.py: the triangular coefficient generator\<close>

text \<open>
  \<open>gen_A_triangular\<close>, lines 67-91. \<open>off_entries\<close> is the inner loop
  \<open>for _j in range(i+1, n)\<close>, by the number of columns left; \<open>gen_rows\<close> is the outer
  loop over the row indices.
\<close>

fun off_entries :: "'g rng_lib \<Rightarrow> real \<Rightarrow> int \<times> int \<Rightarrow> nat \<Rightarrow> 'g \<Rightarrow> error + (int list \<times> 'g)" where
  "off_entries L density off_range 0 g = Inr ([], g)"
| "off_entries L density off_range (Suc m) g =
     (let (r, g1) = rnd_random L g in
      ebind
        (if r < density then
           ebind (py_randint L (fst off_range) (snd off_range) g1) (\<lambda>(aij, g2).
             if aij = 0 then
               (let (r2, g3) = rnd_random L g2 in Inr (if r2 < 1 / 2 then 1 else - 1, g3))
             else Inr (aij, g2))
         else Inr (0, g1))
        (\<lambda>(aij, g4).
           ebind (off_entries L density off_range m g4) (\<lambda>(rest, g5). Inr (aij # rest, g5))))"

definition gen_row :: "'g rng_lib \<Rightarrow> nat \<Rightarrow> real \<Rightarrow> int \<times> int \<Rightarrow> int \<times> int \<Rightarrow> nat \<Rightarrow> 'g
    \<Rightarrow> error + (int list \<times> 'g)" where
  "gen_row L n density diag_range off_range i g =
     ebind (py_randint L (fst diag_range) (snd diag_range) g) (\<lambda>(aii0, g1).
       let (aii, g2) =
             (if aii0 = 0 then
                (let (r, g') = rnd_random L g1 in (if r < 1 / 2 then 1 else - 1, g'))
              else (aii0, g1))
       in ebind (off_entries L density off_range (n - (i + 1)) g2) (\<lambda>(offs, g3).
            Inr (aii # offs, g3)))"

fun gen_rows :: "'g rng_lib \<Rightarrow> nat \<Rightarrow> real \<Rightarrow> int \<times> int \<Rightarrow> int \<times> int \<Rightarrow> nat list \<Rightarrow> 'g
    \<Rightarrow> error + (int list list \<times> 'g)" where
  "gen_rows L n density diag_range off_range [] g = Inr ([], g)"
| "gen_rows L n density diag_range off_range (i # is) g =
     ebind (gen_row L n density diag_range off_range i g) (\<lambda>(row, g1).
       ebind (gen_rows L n density diag_range off_range is g1) (\<lambda>(rows, g2).
         Inr (row # rows, g2)))"

definition gen_A_triangular :: "'g rng_lib \<Rightarrow> nat \<Rightarrow> 'g \<Rightarrow> real \<Rightarrow> int \<times> int \<Rightarrow> int \<times> int
    \<Rightarrow> error + (int list list \<times> 'g)" where
  "gen_A_triangular L n g density diag_range off_range =
     gen_rows L n density diag_range off_range [0..<n] g"

section \<open>gen_instances.py: the covering sets\<close>

text \<open>
  A covering set is a Python \<open>set\<close> of integers, here an \<open>int set\<close>; the list \<open>S\<close> of the
  sources is a list of such sets. Every entry of \<open>S\<close> is an object of its own (each
  pattern builds a fresh set per index), so an in-place \<open>S[idx].add(k)\<close> is the list update
  \<open>S[idx := insert k (S ! idx)]\<close>. The size \<open>n\<close> is a natural number: a negative \<open>n\<close>
  is outside this model.
\<close>

text \<open>Python 3's \<open>round\<close> on a float: to the nearest integer, a tie to the even one.\<close>

definition py_round :: "real \<Rightarrow> int" where
  "py_round x =
     (let f = \<lfloor>x\<rfloor>; d = x - of_int f in
      if d < 1/2 then f else if 1/2 < d then f + 1 else if even f then f else f + 1)"

text \<open>\<open>_avg_size\<close>, lines 12-14: \<open>max(2, int(round(n ** 0.5)))\<close>. The float power is the
  real square root here; no statement below depends on the value it gives.\<close>

definition avg_size :: "nat \<Rightarrow> int" where
  "avg_size n = max 2 (py_round (sqrt (real n)))"

subsection \<open>pattern_uniform, lines 16-24\<close>

text \<open>The set comprehension \<open>{k for k in range(1, n+1) if rng.random() < p}\<close>: one draw
  for each \<open>k\<close>, in order.\<close>

fun uniform_set :: "'g rng_lib \<Rightarrow> real \<Rightarrow> int list \<Rightarrow> 'g \<Rightarrow> int set \<times> 'g" where
  "uniform_set L p [] g = ({}, g)"
| "uniform_set L p (k # ks) g =
     (let (r, g1) = rnd_random L g;
          (s, g2) = uniform_set L p ks g1
      in (if r < p then insert k s else s, g2))"

text \<open>The loop \<open>for _ in range(n)\<close>, by the number of rounds left.\<close>

fun uniform_loop :: "'g rng_lib \<Rightarrow> real \<Rightarrow> nat \<Rightarrow> nat \<Rightarrow> 'g \<Rightarrow> int set list \<times> 'g" where
  "uniform_loop L p n 0 g = ([], g)"
| "uniform_loop L p n (Suc m) g =
     (let (s, g1) = uniform_set L p [1..int n] g;
          (S, g2) = uniform_loop L p n m g1
      in (s # S, g2))"

definition pattern_uniform :: "'g rng_lib \<Rightarrow> nat \<Rightarrow> 'g \<Rightarrow> error + (int set list \<times> 'g)" where
  "pattern_uniform L n g =
     (let avg = avg_size n in
      if n = 0 then Inl ZeroDivisionError
      else (let p = real_of_int avg / real n in Inr (uniform_loop L p n n g)))"

subsection \<open>pattern_interval, lines 26-34\<close>

fun interval_loop :: "'g rng_lib \<Rightarrow> nat \<Rightarrow> int \<Rightarrow> int list \<Rightarrow> 'g \<Rightarrow> int set list \<times> 'g" where
  "interval_loop L n avg [] g = ([], g)"
| "interval_loop L n avg (i # is) g =
     (let (r, g1) = rnd_random L g;
          len = max 1 (py_round (real_of_int avg * (1 / 2 + r)));
          elems = map (\<lambda>t. ((i - 1 + t) mod int n) + 1) [0..len - 1];
          (S, g2) = interval_loop L n avg is g1
      in (set elems # S, g2))"

definition pattern_interval :: "'g rng_lib \<Rightarrow> nat \<Rightarrow> 'g \<Rightarrow> int set list \<times> 'g" where
  "pattern_interval L n g = (let avg = avg_size n in interval_loop L n avg [1..int n] g)"

subsection \<open>pattern_pareto, lines 36-48\<close>

fun pareto_loop :: "'g rng_lib \<Rightarrow> nat \<Rightarrow> int \<Rightarrow> nat \<Rightarrow> 'g \<Rightarrow> error + (int set list \<times> 'g)" where
  "pareto_loop L n avg 0 g = Inr ([], g)"
| "pareto_loop L n avg (Suc m) g =
     (let (val, g1) = rnd_paretovariate L 2 g;
          size = max 1 (min (3 * avg) (py_round (real_of_int avg * min val 3)))
      in ebind
           (if int n \<le> size then Inr (set [1..int n], g1)
            else ebind (py_sample L [1..int n] size g1) (\<lambda>(xs, g2). Inr (set xs, g2)))
           (\<lambda>(s, g3). ebind (pareto_loop L n avg m g3) (\<lambda>(S, g4). Inr (s # S, g4))))"

definition pattern_pareto :: "'g rng_lib \<Rightarrow> nat \<Rightarrow> 'g \<Rightarrow> error + (int set list \<times> 'g)" where
  "pattern_pareto L n g = (let avg = avg_size n in pareto_loop L n avg n g)"

subsection \<open>enforce_coverage, lines 50-59\<close>

text \<open>A Python list index: a negative index counts from the end, anything else out of
  range raises \<open>IndexError\<close> (\<open>None\<close> here).\<close>

definition list_index :: "nat \<Rightarrow> int \<Rightarrow> nat option" where
  "list_index len k =
     (if 0 \<le> k \<and> k < int len then Some (nat k)
      else if - int len \<le> k \<and> k < 0 then Some (nat (k + int len))
      else None)"

text \<open>\<open>for k in s: covered[k] += 1\<close>. A set is iterated in an order Python does not
  specify; the model takes the ascending one, and the counts do not depend on it.\<close>

fun count_elems :: "int list \<Rightarrow> nat list \<Rightarrow> error + nat list" where
  "count_elems [] covered = Inr covered"
| "count_elems (k # ks) covered =
     (case list_index (length covered) k of
        None \<Rightarrow> Inl IndexError
      | Some p \<Rightarrow> count_elems ks (covered[p := covered ! p + 1]))"

fun count_sets :: "int set list \<Rightarrow> nat list \<Rightarrow> error + nat list" where
  "count_sets [] covered = Inr covered"
| "count_sets (s # S) covered =
     ebind (count_elems (sorted_list_of_set s) covered) (count_sets S)"

text \<open>\<open>min(range(len(S)), key=lambda i: len(S[i]))\<close>: the first index whose key is
  strictly below every earlier one; \<open>None\<close> is the \<open>ValueError\<close> of \<open>min\<close> on an
  empty range.\<close>

definition smallest_index :: "int set list \<Rightarrow> nat option" where
  "smallest_index S =
     (case [0..<length S] of
        [] \<Rightarrow> None
      | i # is \<Rightarrow> Some (fold (\<lambda>j best. if card (S ! j) < card (S ! best) then j else best) is i))"

fun add_missing :: "int list \<Rightarrow> int set list \<Rightarrow> error + int set list" where
  "add_missing [] S = Inr S"
| "add_missing (k # ks) S =
     (case smallest_index S of
        None \<Rightarrow> Inl (ValueError ''min() arg is an empty sequence'')
      | Some idx \<Rightarrow> add_missing ks (S[idx := insert k (S ! idx)]))"

definition enforce_coverage :: "int set list \<Rightarrow> nat \<Rightarrow> error + int set list" where
  "enforce_coverage S n =
     ebind (count_sets S (replicate (n + 1) 0)) (\<lambda>covered.
       let missing = filter (\<lambda>k. covered ! nat k = 0) [1..int n]
       in add_missing missing S)"

subsection \<open>nonempty_fix, lines 61-65\<close>

fun nonempty_fix :: "'g rng_lib \<Rightarrow> int set list \<Rightarrow> nat \<Rightarrow> 'g \<Rightarrow> error + (int set list \<times> 'g)" where
  "nonempty_fix L [] n g = Inr ([], g)"
| "nonempty_fix L (s # S) n g =
     ebind
       (if s = {} then
          ebind (py_randrange L 1 (int n + 1) g) (\<lambda>(k, g1). Inr (insert k s, g1))
        else Inr (s, g))
       (\<lambda>(s', g2). ebind (nonempty_fix L S n g2) (\<lambda>(S', g3). Inr (s' # S', g3)))"

subsection \<open>build_sets, lines 103-114\<close>

text \<open>The message of the unknown-pattern error holds one character outside ASCII,
  written here by its code point.\<close>

definition build_sets :: "'g rng_lib \<Rightarrow> nat \<Rightarrow> string \<Rightarrow> 'g \<Rightarrow> error + (int set list \<times> 'g)" where
  "build_sets L n pattern g =
     ebind
       (if pattern = ''uniform'' then pattern_uniform L n g
        else if pattern = ''interval'' then Inr (pattern_interval L n g)
        else if pattern = ''pareto'' then pattern_pareto L n g
        else Inl (ValueError (''Padr'' @ [CHR 0xE3] @ ''o desconhecido: '' @ pattern)))
       (\<lambda>(S, g1). ebind (enforce_coverage S n) (\<lambda>S1. nonempty_fix L S1 n g1))"

subsection \<open>The repair as the specification words it\<close>

text \<open>
  The specification's coverage repair: each element that no set covers goes to the
  currently smallest set, the lowest index among equally small ones. \<open>spec_smallest\<close>
  finds that index by its definition, \<open>spec_repair\<close> adds the elements one after the
  other.
\<close>

definition spec_smallest :: "int set list \<Rightarrow> nat option" where
  "spec_smallest S =
     find (\<lambda>i. \<forall>j \<in> set [0..<length S]. card (S ! i) \<le> card (S ! j)) [0..<length S]"

definition spec_repair :: "int list \<Rightarrow> int set list \<Rightarrow> int set list" where
  "spec_repair ks S =
     fold (\<lambda>k T. case spec_smallest T of None \<Rightarrow> T | Some i \<Rightarrow> T[i := insert k (T ! i)]) ks S"

subsection \<open>Well-formed covering sets\<close>

text \<open>The data model's covering sets: finite sets of elements of \<open>1..n\<close>.\<close>

definition wf_sets :: "nat \<Rightarrow> int set list \<Rightarrow> bool" where
  "wf_sets n S = (\<forall>s\<in>set S. finite s \<and> s \<subseteq> {1..int n})"

subsection \<open>The library contract the generator relies on\<close>

text \<open>\<open>random.sample(population, k)\<close> returns elements of the population. The Pareto
  pattern is the only caller.\<close>

definition sample_in_population :: "'g rng_lib \<Rightarrow> bool" where
  "sample_in_population L =
     (\<forall>pop k g. 0 \<le> k \<and> k \<le> int (length pop) \<longrightarrow> set (fst (rnd_sample L pop k g)) \<subseteq> set pop)"

section \<open>Integers as text\<close>

text \<open>
  Text is a list of 8-bit characters. \<open>py_str\<close> is Python's \<open>str\<close> on an \<open>int\<close>: the
  decimal digits, most significant first, after a minus sign for a negative number.
\<close>

definition digit_char :: "nat \<Rightarrow> char" where
  "digit_char d = char_of (48 + d)"

fun digits :: "nat \<Rightarrow> string" where
  "digits m = (if m < 10 then [digit_char m] else digits (m div 10) @ [digit_char (m mod 10)])"

declare digits.simps [simp del]

definition py_str :: "int \<Rightarrow> string" where
  "py_str v = (if v < 0 then CHR ''-'' # digits (nat (- v)) else digits (nat v))"

text \<open>
  \<open>py_int\<close> is \<open>int(tok)\<close> on the decimal literals without underscores: an optional
  sign and at least one digit; \<open>None\<close> is the \<open>ValueError\<close> of \<open>int\<close>. \<open>py_float\<close> is
  \<open>float(tok)\<close> on the same literals, the ones the generator writes. The parser below
  takes its two conversions as arguments; these two are the ones the worked examples
  run with.
\<close>

definition digit_val :: "char \<Rightarrow> nat option" where
  "digit_val c =
     (let k = (of_char c :: nat) in if 48 \<le> k \<and> k \<le> 57 then Some (k - 48) else None)"

fun nat_of_digits :: "nat \<Rightarrow> string \<Rightarrow> nat option" where
  "nat_of_digits acc [] = Some acc"
| "nat_of_digits acc (c # cs) =
     (case digit_val c of None \<Rightarrow> None | Some d \<Rightarrow> nat_of_digits (10 * acc + d) cs)"

definition py_int :: "string \<Rightarrow> int option" where
  "py_int s =
     (case s of
        [] \<Rightarrow> None
      | c # cs \<Rightarrow>
          if c = CHR ''-'' then
            (if cs = [] then None else map_option (\<lambda>m. - int m) (nat_of_digits 0 cs))
          else if c = CHR ''+'' then
            (if cs = [] then None else map_option int (nat_of_digits 0 cs))
          else map_option int (nat_of_digits 0 s))"

text \<open>
  A Python float is a binary64 number, modelled by the real it denotes. \<open>float\<close> rounds
  the integer it reads to the nearest number with a 53-bit significand, ties to the even
  significand: \<open>bit_length m\<close> is the number of binary digits of \<open>m\<close>, and \<open>round_53 m\<close>
  keeps the leading 53 of them. The range of the exponent is not modelled (a literal
  beyond about \<open>1.8e308\<close>, which \<open>float\<close> reads as \<open>inf\<close>, has no counterpart here).
\<close>

fun bit_length :: "nat \<Rightarrow> nat" where
  "bit_length m = (if m = 0 then 0 else Suc (bit_length (m div 2)))"

declare bit_length.simps [simp del]

definition round_53 :: "nat \<Rightarrow> nat" where
  "round_53 m =
     (let e = bit_length m - 53; q = m div 2 ^ e; r = m mod 2 ^ e
      in if 2 ^ e < 2 * r \<or> (2 * r = 2 ^ e \<and> odd q) then (q + 1) * 2 ^ e else q * 2 ^ e)"

definition double_of_int :: "int \<Rightarrow> real" where
  "double_of_int v =
     (if v < 0 then - real (round_53 (nat (- v))) else real (round_53 (nat v)))"

definition py_float :: "string \<Rightarrow> real option" where
  "py_float s = map_option double_of_int (py_int s)"

section \<open>max_sc_qbf.py: the parser\<close>

subsection \<open>From the file to the token stream\<close>

text \<open>
  The file is its text. \<open>is_space\<close> is Python's notion of whitespace on the characters
  below 256. \<open>readlines\<close> cuts the text after every line feed; Python's universal
  newlines also end a line at a carriage return, which changes no token, since the
  carriage return is whitespace to \<open>strip\<close> and \<open>split\<close>.
\<close>

definition is_space :: "char \<Rightarrow> bool" where
  "is_space c = ((of_char c :: nat) \<in> {9, 10, 11, 12, 13, 28, 29, 30, 31, 32, 133, 160})"

definition newline :: char where
  "newline = CHR 0x0A"

fun readlines_from :: "string \<Rightarrow> string \<Rightarrow> string list" where
  "readlines_from cur [] = (if cur = [] then [] else [cur])"
| "readlines_from cur (c # cs) =
     (if c = newline then (cur @ [c]) # readlines_from [] cs
      else readlines_from (cur @ [c]) cs)"

definition readlines :: "string \<Rightarrow> string list" where
  "readlines content = readlines_from [] content"

text \<open>\<open>line.strip()\<close> and \<open>line.split()\<close>: the maximal runs of characters that are not
  whitespace.\<close>

definition py_strip :: "string \<Rightarrow> string" where
  "py_strip s = rev (dropWhile is_space (rev (dropWhile is_space s)))"

fun split_from :: "string \<Rightarrow> string \<Rightarrow> string list" where
  "split_from cur [] = (if cur = [] then [] else [cur])"
| "split_from cur (c # cs) =
     (if is_space c then (if cur = [] then split_from [] cs else cur # split_from [] cs)
      else split_from (cur @ [c]) cs)"

definition py_split :: "string \<Rightarrow> string list" where
  "py_split s = split_from [] s"

text \<open>\<open>token_stream\<close>, lines 22-28. The generator is read in order and never rewound, so
  it is the list of its tokens, and \<open>next(toks)\<close> takes the head; \<open>StopIteration\<close> is the
  empty list.\<close>

definition token_stream :: "string list \<Rightarrow> string list" where
  "token_stream lines =
     concat (map (\<lambda>line. let l = py_strip line in if l = [] then [] else py_split l) lines)"

subsection \<open>Reading the sections\<close>

text \<open>
  The conversions \<open>int\<close> and \<open>float\<close> are arguments: \<open>to_int tok = None\<close> and
  \<open>to_float tok = None\<close> stand for the \<open>ValueError\<close> the conversion raises, which
  \<open>parse_instance\<close> does not catch (it catches \<open>StopIteration\<close> only). Floats are
  modelled as reals.
\<close>

text \<open>Lines 35-38.\<close>

definition read_n :: "(string \<Rightarrow> int option) \<Rightarrow> string list \<Rightarrow> error + (int \<times> string list)" where
  "read_n to_int toks =
     (case toks of
        [] \<Rightarrow> Inl (ValueError ''Arquivo vazio ou n ausente.'')
      | t # ts \<Rightarrow> (case to_int t of None \<Rightarrow> Inl (ConversionError t) | Some n \<Rightarrow> Inr (n, ts)))"

text \<open>Lines 41-46, by the number of sizes still to read.\<close>

fun read_sizes :: "(string \<Rightarrow> int option) \<Rightarrow> nat \<Rightarrow> string list \<Rightarrow> error + (int list \<times> string list)" where
  "read_sizes to_int 0 toks = Inr ([], toks)"
| "read_sizes to_int (Suc m) [] = Inl (ValueError ''Linha de tamanhos s_i incompleta.'')"
| "read_sizes to_int (Suc m) (t # ts) =
     (case to_int t of
        None \<Rightarrow> Inl (ConversionError t)
      | Some v \<Rightarrow> ebind (read_sizes to_int m ts) (\<lambda>(vs, rest). Inr (v # vs, rest)))"

text \<open>Lines 52-59 for one set \<open>i\<close> (0-based), by the number of elements still to read.
  The elements are stored 0-based.\<close>

fun read_elems :: "(string \<Rightarrow> int option) \<Rightarrow> int \<Rightarrow> nat \<Rightarrow> nat \<Rightarrow> string list
    \<Rightarrow> error + (int set \<times> string list)" where
  "read_elems to_int n i 0 toks = Inr ({}, toks)"
| "read_elems to_int n i (Suc m) [] =
     Inl (ValueError (''Lista de cobertura de S'' @ py_str (int i + 1) @ '' incompleta.''))"
| "read_elems to_int n i (Suc m) (t # ts) =
     (case to_int t of
        None \<Rightarrow> Inl (ConversionError t)
      | Some k \<Rightarrow>
          if \<not> (1 \<le> k \<and> k \<le> n) then
            Inl (ValueError (''Elemento '' @ py_str k @ '' fora do universo 1..'' @ py_str n @ ''.''))
          else ebind (read_elems to_int n i m ts) (\<lambda>(s, rest). Inr (insert (k - 1) s, rest)))"

text \<open>Lines 49-59: the loop over the sets, \<open>need = s[i]\<close> taken from the list of sizes.\<close>

fun read_subsets :: "(string \<Rightarrow> int option) \<Rightarrow> int \<Rightarrow> nat \<Rightarrow> int list \<Rightarrow> string list
    \<Rightarrow> error + (int set list \<times> string list)" where
  "read_subsets to_int n i [] toks = Inr ([], toks)"
| "read_subsets to_int n i (need # sizes) toks =
     ebind (read_elems to_int n i (nat need) toks) (\<lambda>(s, rest).
       ebind (read_subsets to_int n (Suc i) sizes rest) (\<lambda>(S, rest'). Inr (s # S, rest')))"

text \<open>Lines 62-68.\<close>

fun read_coeffs :: "(string \<Rightarrow> real option) \<Rightarrow> nat \<Rightarrow> string list \<Rightarrow> error + (real list \<times> string list)" where
  "read_coeffs to_float 0 toks = Inr ([], toks)"
| "read_coeffs to_float (Suc m) [] = Inl (ValueError ''Matriz A (triangular superior) incompleta.'')"
| "read_coeffs to_float (Suc m) (t # ts) =
     (case to_float t of
        None \<Rightarrow> Inl (ConversionError t)
      | Some v \<Rightarrow> ebind (read_coeffs to_float m ts) (\<lambda>(vs, rest). Inr (v # vs, rest)))"

text \<open>Lines 71-78. The dictionary \<open>A\<close> is an association list in insertion order;
  \<open>index_pairs\<close> lists the pairs the two nested loops visit; \<open>coeffs[idx]\<close> past the end
  of the list would raise \<open>IndexError\<close>.\<close>

definition index_pairs :: "nat \<Rightarrow> (nat \<times> nat) list" where
  "index_pairs n = concat (map (\<lambda>i. map (\<lambda>j. (i, j)) [i..<n]) [0..<n])"

fun fill_A :: "(nat \<times> nat) list \<Rightarrow> real list \<Rightarrow> nat \<Rightarrow> ((nat \<times> nat) \<times> real) list
    \<Rightarrow> error + ((nat \<times> nat) \<times> real) list" where
  "fill_A [] coeffs idx A = Inr A"
| "fill_A (p # ps) coeffs idx A =
     (if length coeffs \<le> idx then Inl IndexError
      else
        (let aij = coeffs ! idx
         in fill_A ps coeffs (idx + 1) (if aij \<noteq> 0 then AList.update p aij A else A)))"

subsection \<open>parse_instance, lines 8-80\<close>

definition parse_tokens :: "(string \<Rightarrow> int option) \<Rightarrow> (string \<Rightarrow> real option) \<Rightarrow> string list
    \<Rightarrow> error + (int \<times> int set list \<times> ((nat \<times> nat) \<times> real) list)" where
  "parse_tokens to_int to_float toks =
     ebind (read_n to_int toks) (\<lambda>(n, toks1).
       ebind (read_sizes to_int (nat n) toks1) (\<lambda>(s, toks2).
         ebind (read_subsets to_int n 0 s toks2) (\<lambda>(subsets, toks3).
           ebind (read_coeffs to_float (nat (n * (n + 1) div 2)) toks3) (\<lambda>(coeffs, toks4).
             ebind (fill_A (index_pairs (nat n)) coeffs 0 []) (\<lambda>A.
               Inr (n, subsets, A))))))"

definition parse_instance :: "(string \<Rightarrow> int option) \<Rightarrow> (string \<Rightarrow> real option) \<Rightarrow> string
    \<Rightarrow> error + (int \<times> int set list \<times> ((nat \<times> nat) \<times> real) list)" where
  "parse_instance to_int to_float content =
     parse_tokens to_int to_float (token_stream (readlines content))"

subsection \<open>The failures as the specification lists them\<close>

text \<open>
  The specification names five situations in which parsing fails; the code has a sixth:
  a token is rejected by the conversion that reads it. The stream is
  \<open>n, s_1 .. s_n, elements, coefficients\<close>; \<open>int\<close> reads \<open>n\<close>, the sizes and the
  elements, \<open>float\<close> reads the coefficients, and nothing reads what follows them. In the
  order in which the stream is consumed:
  \<^enum> the stream is empty: there is no \<open>n\<close>;
  \<^enum> fewer than \<open>n\<close> tokens follow \<open>n\<close>: the sizes are short;
  \<^enum> one of the element tokens present (the first \<open>s_1 + ... + s_n\<close> tokens after the
    sizes, or as many as there are) is outside \<open>1..n\<close>;
  \<^enum> fewer than \<open>s_1 + ... + s_n\<close> tokens follow the sizes: the list of some set \<open>S_i\<close>
    ends early, \<open>i\<close> being the set in which the first absent position falls;
  \<^enum> fewer than \<open>n(n+1)/2\<close> tokens follow the elements;
  \<^enum> a token of a section, among those present, is rejected by the conversion of that
    section.

  Within a section the tokens present are read before the section can run short, and
  they are read in order, so the first offending token of a section decides before its
  length does. \<open>spec_parse_outcome\<close> returns the error of the first situation that
  holds, and \<open>None\<close> when none does. \<open>set_index sizes p\<close> is the index of the set to
  which position \<open>p\<close> of the element section belongs.
\<close>

fun set_index :: "nat list \<Rightarrow> nat \<Rightarrow> nat" where
  "set_index [] p = 0"
| "set_index (s # ss) p = (if p < s then 0 else Suc (set_index ss (p - s)))"

text \<open>An element token that stops the parser: not an integer, or outside \<open>1..n\<close>; and
  the error it stops it with.\<close>

definition bad_elem :: "(string \<Rightarrow> int option) \<Rightarrow> int \<Rightarrow> string \<Rightarrow> bool" where
  "bad_elem to_int n t = (case to_int t of None \<Rightarrow> True | Some k \<Rightarrow> \<not> (1 \<le> k \<and> k \<le> n))"

definition elem_error :: "(string \<Rightarrow> int option) \<Rightarrow> int \<Rightarrow> string \<Rightarrow> error" where
  "elem_error to_int n t =
     (case to_int t of
        None \<Rightarrow> ConversionError t
      | Some k \<Rightarrow>
          ValueError (''Elemento '' @ py_str k @ '' fora do universo 1..'' @ py_str n @ ''.''))"

definition spec_parse_outcome :: "(string \<Rightarrow> int option) \<Rightarrow> (string \<Rightarrow> real option) \<Rightarrow> string list
    \<Rightarrow> error option" where
  "spec_parse_outcome to_int to_float toks =
     (case toks of
        [] \<Rightarrow> Some (ValueError ''Arquivo vazio ou n ausente.'')
      | t0 # after_n \<Rightarrow>
          (case to_int t0 of
             None \<Rightarrow> Some (ConversionError t0)
           | Some n \<Rightarrow>
               (case find (\<lambda>t. to_int t = None) (take (nat n) after_n) of
                  Some t \<Rightarrow> Some (ConversionError t)
                | None \<Rightarrow>
                    if length after_n < nat n then
                      Some (ValueError ''Linha de tamanhos s_i incompleta.'')
                    else
                      (let sizes = map (\<lambda>t. nat (the (to_int t))) (take (nat n) after_n);
                           after_sizes = drop (nat n) after_n;
                           total = sum_list sizes
                       in case find (bad_elem to_int n) (take total after_sizes) of
                            Some t \<Rightarrow> Some (elem_error to_int n t)
                          | None \<Rightarrow>
                              if length after_sizes < total then
                                Some (ValueError (''Lista de cobertura de S''
                                      @ py_str (int (set_index sizes (length after_sizes)) + 1)
                                      @ '' incompleta.''))
                              else
                                (let after_elems = drop total after_sizes;
                                     needed = nat (n * (n + 1) div 2)
                                 in case find (\<lambda>t. to_float t = None) (take needed after_elems) of
                                      Some t \<Rightarrow> Some (ConversionError t)
                                    | None \<Rightarrow>
                                        if length after_elems < needed then
                                          Some (ValueError ''Matriz A (triangular superior) incompleta.'')
                                        else None)))))"

section \<open>gen_instances.py: the writer\<close>

text \<open>\<open>sep.join(parts)\<close>.\<close>

fun join :: "string \<Rightarrow> string list \<Rightarrow> string" where
  "join sep [] = []"
| "join sep [x] = x"
| "join sep (x # y # ys) = x @ sep @ join sep (y # ys)"

text \<open>
  \<open>write_instance\<close>, lines 93-101: the text written to the file. \<open>A_rows[i]\<close> is read
  for every \<open>i\<close> in \<open>range(n)\<close>, so fewer than \<open>n\<close> rows raise \<open>IndexError\<close>.
\<close>

definition write_line :: "int list \<Rightarrow> string" where
  "write_line vs = join '' '' (map py_str vs) @ [newline]"

definition write_instance :: "nat \<Rightarrow> int set list \<Rightarrow> int list list \<Rightarrow> error + string" where
  "write_instance n S A_rows =
     (if length A_rows < n then Inl IndexError
      else Inr (write_line [int n]
                @ write_line (map (\<lambda>s. int (card s)) S)
                @ concat (map (\<lambda>s. write_line (sorted_list_of_set s)) S)
                @ concat (map (\<lambda>i. write_line (A_rows ! i)) [0..<n])))"

text \<open>\<open>file_name\<close>, lines 116-117.\<close>

definition file_name :: "nat \<Rightarrow> string \<Rightarrow> int \<Rightarrow> string" where
  "file_name n pattern seed =
     ''maxscqbf_n'' @ py_str (int n) @ ''_'' @ pattern @ ''_seed'' @ py_str seed @ ''.txt''"

subsection \<open>The matrix as its stored nonzero entries\<close>

text \<open>The rows of an upper-triangular matrix (\<open>rows[i] = [a_ii, ..., a_i,n-1]\<close>,
  0-based) restricted to the nonzero entries: the pairs \<open>(i, j)\<close>, \<open>i \<le> j\<close>, in row
  order, each with its coefficient \<open>rows[i][j - i]\<close>.\<close>

definition sparse_of_rows :: "nat \<Rightarrow> int list list \<Rightarrow> ((nat \<times> nat) \<times> real) list" where
  "sparse_of_rows n rows =
     map (\<lambda>(i, j). ((i, j), real_of_int (rows ! i ! (j - i))))
       (filter (\<lambda>(i, j). rows ! i ! (j - i) \<noteq> 0) (index_pairs n))"

section \<open>max_sc_qbf.py: the linear model handed to the solver\<close>

text \<open>
  \<open>build_and_solve\<close> builds a Gurobi model and calls the solver. The solver is an
  external collaborator; what is modelled is the model the function has built when it
  calls \<open>m.optimize()\<close> (lines 87-121): the variables with their bounds and types, the
  constraints in the order they are added, and the objective, which is maximised.
\<close>

datatype var = X nat | Y nat nat

datatype vtype = Binary | Continuous

record var_decl =
  vd_var :: var
  vd_lb :: real
  vd_ub :: real
  vd_type :: vtype
  vd_name :: string

text \<open>A linear expression: coefficients times variables, plus a constant.\<close>

record linexpr =
  le_terms :: "(real \<times> var) list"
  le_const :: real

datatype sense = Le | Ge | Eq

record constr =
  c_lhs :: linexpr
  c_sense :: sense
  c_rhs :: linexpr
  c_name :: string

record milp =
  m_vars :: "var_decl list"
  m_constrs :: "constr list"
  m_objective :: linexpr

definition var_expr :: "var \<Rightarrow> linexpr" where
  "var_expr v = \<lparr>le_terms = [(1, v)], le_const = 0\<rparr>"

definition const_expr :: "real \<Rightarrow> linexpr" where
  "const_expr c = \<lparr>le_terms = [], le_const = c\<rparr>"

text \<open>\<open>quicksum(x[i] for i in coverers)\<close>.\<close>

definition quicksum_x :: "nat list \<Rightarrow> linexpr" where
  "quicksum_x is = \<lparr>le_terms = map (\<lambda>i. (1, X i)) is, le_const = 0\<rparr>"

text \<open>\<open>x = m.addVars(n, vtype=GRB.BINARY, name="x")\<close> and
  \<open>m.addVar(lb=0.0, ub=1.0, vtype=GRB.CONTINUOUS, name=f"y[{i},{j}]")\<close>.\<close>

definition x_decl :: "nat \<Rightarrow> var_decl" where
  "x_decl i =
     \<lparr>vd_var = X i, vd_lb = 0, vd_ub = 1, vd_type = Binary,
      vd_name = ''x['' @ py_str (int i) @ '']''\<rparr>"

definition y_decl :: "nat \<times> nat \<Rightarrow> var_decl" where
  "y_decl p =
     \<lparr>vd_var = Y (fst p) (snd p), vd_lb = 0, vd_ub = 1, vd_type = Continuous,
      vd_name = ''y['' @ py_str (int (fst p)) @ '','' @ py_str (int (snd p)) @ '']''\<rparr>"

text \<open>
  Lines 106-108. \<open>subsets[i]\<close> is read for every \<open>i\<close> in \<open>range(n)\<close>, so a list of fewer
  than \<open>n\<close> sets raises \<open>IndexError\<close>. The covering sets hold 0-based elements here, as
  the parser stores them.
\<close>

definition cover_constr :: "nat \<Rightarrow> int set list \<Rightarrow> nat \<Rightarrow> error + constr" where
  "cover_constr n subsets k =
     (if length subsets < n then Inl IndexError
      else
        (let coverers = filter (\<lambda>i. int k \<in> subsets ! i) [0..<n]
         in Inr \<lparr>c_lhs = quicksum_x coverers, c_sense = Ge, c_rhs = const_expr 1,
                 c_name = ''cover['' @ py_str (int k) @ '']''\<rparr>))"

fun cover_constrs :: "nat \<Rightarrow> int set list \<Rightarrow> nat list \<Rightarrow> error + constr list" where
  "cover_constrs n subsets [] = Inr []"
| "cover_constrs n subsets (k # ks) =
     ebind (cover_constr n subsets k) (\<lambda>c.
       ebind (cover_constrs n subsets ks) (\<lambda>cs. Inr (c # cs)))"

text \<open>
  Lines 111-118, one key of \<open>y\<close>. \<open>x[i]\<close> exists for \<open>i\<close> in \<open>range(n)\<close> only; any other
  index raises \<open>KeyError\<close>.
\<close>

definition linearization :: "nat \<Rightarrow> nat \<times> nat \<Rightarrow> error + constr list" where
  "linearization n p =
     (let i = fst p; j = snd p in
      if i = j then
        (if i < n then
           Inr [\<lparr>c_lhs = var_expr (Y i i), c_sense = Eq, c_rhs = var_expr (X i),
                 c_name = ''diag['' @ py_str (int i) @ '']''\<rparr>]
         else Inl KeyError)
      else
        (if i < n \<and> j < n then
           Inr [\<lparr>c_lhs = var_expr (Y i j), c_sense = Le, c_rhs = var_expr (X i),
                 c_name = ''mc1['' @ py_str (int i) @ '','' @ py_str (int j) @ '']''\<rparr>,
                \<lparr>c_lhs = var_expr (Y i j), c_sense = Le, c_rhs = var_expr (X j),
                 c_name = ''mc2['' @ py_str (int i) @ '','' @ py_str (int j) @ '']''\<rparr>,
                \<lparr>c_lhs = var_expr (Y i j), c_sense = Ge,
                 c_rhs = \<lparr>le_terms = [(1, X i), (1, X j)], le_const = - 1\<rparr>,
                 c_name = ''mc3['' @ py_str (int i) @ '','' @ py_str (int j) @ '']''\<rparr>]
         else Inl KeyError))"

fun linearizations :: "nat \<Rightarrow> (nat \<times> nat) list \<Rightarrow> error + constr list" where
  "linearizations n [] = Inr []"
| "linearizations n (p # ps) =
     ebind (linearization n p) (\<lambda>cs.
       ebind (linearizations n ps) (\<lambda>rest. Inr (cs @ rest)))"

text \<open>
  The model. \<open>A\<close> is the dictionary of the stored coefficients, an association list in
  insertion order; the \<open>y\<close> variables are created in that order. A negative \<open>n\<close> gives
  empty ranges.
\<close>

definition build_and_solve_model :: "int \<Rightarrow> int set list \<Rightarrow> ((nat \<times> nat) \<times> real) list
    \<Rightarrow> error + milp" where
  "build_and_solve_model n subsets A =
     (let m = nat n;
          xs = map x_decl [0..<m];
          ys = map (\<lambda>(p, aij). y_decl p) A
      in ebind (cover_constrs m subsets [0..<m]) (\<lambda>cover.
           ebind (linearizations m (map fst A)) (\<lambda>lin.
             Inr \<lparr>m_vars = xs @ ys,
                  m_constrs = cover @ lin,
                  m_objective = \<lparr>le_terms = map (\<lambda>(p, aij). (aij, Y (fst p) (snd p))) A,
                                  le_const = 0\<rparr>\<rparr>)))"

subsection \<open>What a model means\<close>

text \<open>An assignment gives every variable a value; a constraint compares the values of
  its two sides; a variable declaration bounds the value and, for a binary variable,
  restricts it to 0 and 1.\<close>

definition eval_expr :: "(var \<Rightarrow> real) \<Rightarrow> linexpr \<Rightarrow> real" where
  "eval_expr \<sigma> e = sum_list (map (\<lambda>(c, v). c * \<sigma> v) (le_terms e)) + le_const e"

definition sat :: "(var \<Rightarrow> real) \<Rightarrow> constr \<Rightarrow> bool" where
  "sat \<sigma> c =
     (case c_sense c of
        Le \<Rightarrow> eval_expr \<sigma> (c_lhs c) \<le> eval_expr \<sigma> (c_rhs c)
      | Ge \<Rightarrow> eval_expr \<sigma> (c_lhs c) \<ge> eval_expr \<sigma> (c_rhs c)
      | Eq \<Rightarrow> eval_expr \<sigma> (c_lhs c) = eval_expr \<sigma> (c_rhs c))"

definition obeys :: "(var \<Rightarrow> real) \<Rightarrow> var_decl \<Rightarrow> bool" where
  "obeys \<sigma> d =
     (vd_lb d \<le> \<sigma> (vd_var d) \<and> \<sigma> (vd_var d) \<le> vd_ub d \<and>
      (vd_type d = Binary \<longrightarrow> \<sigma> (vd_var d) = 0 \<or> \<sigma> (vd_var d) = 1))"

definition expr_vars :: "linexpr \<Rightarrow> var set" where
  "expr_vars e = snd ` set (le_terms e)"

definition mentions :: "constr \<Rightarrow> var \<Rightarrow> bool" where
  "mentions c v = (v \<in> expr_vars (c_lhs c) \<union> expr_vars (c_rhs c))"

text \<open>The part of a model that is about one variable: its declarations and the
  constraints in which it occurs.\<close>

definition holds_for :: "milp \<Rightarrow> var \<Rightarrow> (var \<Rightarrow> real) \<Rightarrow> bool" where
  "holds_for M v \<sigma> =
     ((\<forall>d \<in> set (m_vars M). vd_var d = v \<longrightarrow> obeys \<sigma> d) \<and>
      (\<forall>c \<in> set (m_constrs M). mentions c v \<longrightarrow> sat \<sigma> c))"

text \<open>The cover constraints of a model are the ones named \<open>cover[...]\<close>.\<close>

definition cover_part :: "milp \<Rightarrow> constr list" where
  "cover_part M = filter (\<lambda>c. take 6 (c_name c) = ''cover['') (m_constrs M)"

definition binary_x :: "nat \<Rightarrow> (var \<Rightarrow> real) \<Rightarrow> bool" where
  "binary_x n \<sigma> = (\<forall>i<n. \<sigma> (X i) = 0 \<or> \<sigma> (X i) = 1)"

text \<open>An assignment and an instance for the worked examples: two items, the first
  selected.\<close>

definition demo_sigma :: "var \<Rightarrow> real" where
  "demo_sigma v = (case v of X i \<Rightarrow> (if i = 0 then 1 else 0) | Y i j \<Rightarrow> 0)"

definition demo_A :: "((nat \<times> nat) \<times> real) list" where
  "demo_A = [((0, 0), 3), ((0, 1), - 2)]"

subsection \<open>The product variables of a model and the coefficients read\<close>

text \<open>The pairs for which a model declares a \<open>y\<close> variable, in the order of the
  declarations.\<close>

definition y_keys :: "milp \<Rightarrow> (nat \<times> nat) list" where
  "y_keys M = concat (map (\<lambda>d. case vd_var d of Y i j \<Rightarrow> [(i, j)] | X i \<Rightarrow> []) (m_vars M))"

text \<open>The list \<open>coeffs\<close> of \<open>parse_instance\<close> (lines 63-68), computed as the parser
  computes it, and the coefficient it holds for a pair: \<open>coeffs[idx]\<close> at the visit of
  \<open>(i, j)\<close> in the loops of lines 73-76.\<close>

definition parse_coeffs :: "(string \<Rightarrow> int option) \<Rightarrow> (string \<Rightarrow> real option) \<Rightarrow> string list
    \<Rightarrow> error + real list" where
  "parse_coeffs to_int to_float toks =
     ebind (read_n to_int toks) (\<lambda>(n, toks1).
       ebind (read_sizes to_int (nat n) toks1) (\<lambda>(s, toks2).
         ebind (read_subsets to_int n 0 s toks2) (\<lambda>(subsets, toks3).
           ebind (read_coeffs to_float (nat (n * (n + 1) div 2)) toks3) (\<lambda>(coeffs, toks4).
             Inr coeffs))))"

definition coeff_at :: "nat \<Rightarrow> real list \<Rightarrow> nat \<times> nat \<Rightarrow> real option" where
  "coeff_at n coeffs p = map_of (zip (index_pairs n) coeffs) p"

section \<open>gen_instances.py: a run of the generator\<close>

subsection \<open>The order in which a set is iterated\<close>

text \<open>
  Python does not specify the order in which \<open>for k in s\<close> and \<open>sorted(s)\<close> walk through
  a set; it is the running interpreter's own. Here it is a parameter \<open>iter\<close>, giving for
  a set the list of its elements in the order of the walk. The generator iterates a set
  in two places: the counting loop of \<open>enforce_coverage\<close> (lines 53-55) and \<open>sorted(s)\<close> in
  \<open>write_instance\<close> (line 99). The definitions of this subsection are those functions,
  and \<open>build_sets\<close> which calls the first, with the order left to the run.
\<close>

fun count_sets_iter :: "(int set \<Rightarrow> int list) \<Rightarrow> int set list \<Rightarrow> nat list \<Rightarrow> error + nat list" where
  "count_sets_iter iter [] covered = Inr covered"
| "count_sets_iter iter (s # S) covered =
     ebind (count_elems (iter s) covered) (count_sets_iter iter S)"

definition enforce_coverage_iter :: "(int set \<Rightarrow> int list) \<Rightarrow> int set list \<Rightarrow> nat
    \<Rightarrow> error + int set list" where
  "enforce_coverage_iter iter S n =
     ebind (count_sets_iter iter S (replicate (n + 1) 0)) (\<lambda>covered.
       let missing = filter (\<lambda>k. covered ! nat k = 0) [1..int n]
       in add_missing missing S)"

definition build_sets_iter :: "(int set \<Rightarrow> int list) \<Rightarrow> 'g rng_lib \<Rightarrow> nat \<Rightarrow> string \<Rightarrow> 'g
    \<Rightarrow> error + (int set list \<times> 'g)" where
  "build_sets_iter iter L n pattern g =
     ebind
       (if pattern = ''uniform'' then pattern_uniform L n g
        else if pattern = ''interval'' then Inr (pattern_interval L n g)
        else if pattern = ''pareto'' then pattern_pareto L n g
        else Inl (ValueError (''Padr'' @ [CHR 0xE3] @ ''o desconhecido: '' @ pattern)))
       (\<lambda>(S, g1). ebind (enforce_coverage_iter iter S n) (\<lambda>S1. nonempty_fix L S1 n g1))"

definition write_instance_iter :: "(int set \<Rightarrow> int list) \<Rightarrow> nat \<Rightarrow> int set list \<Rightarrow> int list list
    \<Rightarrow> error + string" where
  "write_instance_iter iter n S A_rows =
     (if length A_rows < n then Inl IndexError
      else Inr (write_line [int n]
                @ write_line (map (\<lambda>s. int (card s)) S)
                @ concat (map (\<lambda>s. write_line (sort (iter s))) S)
                @ concat (map (\<lambda>i. write_line (A_rows ! i)) [0..<n])))"

subsection \<open>main in single-instance mode, lines 151-161\<close>

text \<open>
  What a run has of its own, beside the arguments of the command line: the string hash
  of its process (\<open>hash\<close>, salted anew in every process), the order in which its
  interpreter iterates a set, and its generator object, that is the library's methods
  with the type of their state and \<open>random.Random(seed)\<close> which builds the first state.
  The result is what the run leaves behind: the path, the text written to it, and, for
  the statement of determinism, the covering sets and the rows.
\<close>

record gen_args =
  arg_n :: "nat option"
  arg_pattern :: "string option"
  arg_rho :: real
  arg_seed :: "int option"
  arg_output :: "string option"

record gen_run =
  run_path :: string
  run_text :: string
  run_sets :: "int set list"
  run_rows :: "int list list"

record 'g run_env =
  env_hash :: "string \<Rightarrow> int"
  env_iter :: "int set \<Rightarrow> int list"
  env_lib :: "'g rng_lib"
  env_new :: "int \<Rightarrow> 'g"

definition main_single :: "'g run_env \<Rightarrow> gen_args \<Rightarrow> error + gen_run" where
  "main_single env args =
     (case (arg_n args, arg_pattern args) of
        (Some n, Some pattern) \<Rightarrow>
          (let seed = (case arg_seed args of
                         Some s \<Rightarrow> s
                       | None \<Rightarrow> 20250819 + env_hash env pattern mod 1000 + int n);
               rng = env_new env seed
           in ebind (build_sets_iter (env_iter env) (env_lib env) n pattern rng) (\<lambda>(S, rng1).
                ebind (gen_A_triangular (env_lib env) n rng1 (arg_rho args) (- 10, 10) (- 5, 5))
                  (\<lambda>(A_rows, rng2).
                  let out_path = (case arg_output args of
                                    Some p \<Rightarrow> (if p = [] then file_name n pattern seed else p)
                                  | None \<Rightarrow> file_name n pattern seed)
                  in ebind (write_instance_iter (env_iter env) n S A_rows) (\<lambda>text.
                       Inr \<lparr>run_path = out_path, run_text = text,
                            run_sets = S, run_rows = A_rows\<rparr>))))
      | _ \<Rightarrow> Inl UsageError)"

text \<open>What a run produces, apart from where it puts it: the error, or the covering sets,
  the rows and the text of the file.\<close>

definition outcome :: "error + gen_run \<Rightarrow> error + (int set list \<times> int list list \<times> string)" where
  "outcome res = (case res of Inl e \<Rightarrow> Inl e | Inr r \<Rightarrow> Inr (run_sets r, run_rows r, run_text r))"

subsection \<open>What two runs share\<close>

text \<open>
  An iteration order is an order of the elements of the set: each element once.
\<close>

definition faithful_iter :: "(int set \<Rightarrow> int list) \<Rightarrow> bool" where
  "faithful_iter iter = (\<forall>s. finite s \<longrightarrow> set (iter s) = s \<and> distinct (iter s))"

text \<open>
  The library's guarantee for a seeded generator: two generator objects built from the
  same seed return the same values, call after call. \<open>same_stream R L1 L2\<close> says that \<open>R\<close>
  relates states of the two generators from which every method returns the same value
  and leaves states that \<open>R\<close> relates again.
\<close>

definition same_stream :: "('g \<Rightarrow> 'h \<Rightarrow> bool) \<Rightarrow> 'g rng_lib \<Rightarrow> 'h rng_lib \<Rightarrow> bool" where
  "same_stream R L1 L2 =
     (\<forall>g h. R g h \<longrightarrow>
        rel_prod (=) R (rnd_random L1 g) (rnd_random L2 h) \<and>
        (\<forall>a b. rel_prod (=) R (rnd_randint L1 a b g) (rnd_randint L2 a b h)) \<and>
        (\<forall>a b. rel_prod (=) R (rnd_randrange L1 a b g) (rnd_randrange L2 a b h)) \<and>
        (\<forall>alpha. rel_prod (=) R (rnd_paretovariate L1 alpha g) (rnd_paretovariate L2 alpha h)) \<and>
        (\<forall>pop k. rel_prod (=) R (rnd_sample L1 pop k g) (rnd_sample L2 pop k h)))"

section \<open>A concrete random source for the worked examples\<close>

text \<open>A small deterministic library over a counter state, used only to run the generator
  on concrete inputs.\<close>

definition demo_rng :: "nat rng_lib" where
  "demo_rng = \<lparr>
     rnd_random = (\<lambda>g. (real (g mod 10) / 10, Suc g)),
     rnd_randint = (\<lambda>a b g. (a + int g mod (b - a + 1), Suc g)),
     rnd_randrange = (\<lambda>a b g. (a + int g mod (b - a), Suc g)),
     rnd_paretovariate = (\<lambda>alpha g. (1 + real (g mod 4), Suc g)),
     rnd_sample = (\<lambda>pop k g. (take (nat k) (rotate g pop), Suc g)) \<rparr>"

text \<open>The same library in another representation: the state is an integer, the
  counter of \<open>demo_rng\<close> negated.\<close>

definition demo_rng_neg :: "int rng_lib" where
  "demo_rng_neg = \<lparr>
     rnd_random = (\<lambda>h. (real (nat (- h) mod 10) / 10, h - 1)),
     rnd_randint = (\<lambda>a b h. (a + (- h) mod (b - a + 1), h - 1)),
     rnd_randrange = (\<lambda>a b h. (a + (- h) mod (b - a), h - 1)),
     rnd_paretovariate = (\<lambda>alpha h. (1 + real (nat (- h) mod 4), h - 1)),
     rnd_sample = (\<lambda>pop k h. (take (nat k) (rotate (nat (- h)) pop), h - 1)) \<rparr>"

text \<open>Two runs: one process with the ascending iteration order, another with the
  descending one, another string hash and the other representation of the generator.\<close>

definition demo_env :: "nat run_env" where
  "demo_env = \<lparr>env_hash = (\<lambda>p. 0), env_iter = sorted_list_of_set,
               env_lib = demo_rng, env_new = nat\<rparr>"

definition demo_env_other :: "int run_env" where
  "demo_env_other = \<lparr>env_hash = (\<lambda>p. 7), env_iter = (\<lambda>s. rev (sorted_list_of_set s)),
                     env_lib = demo_rng_neg, env_new = (\<lambda>seed. - int (nat seed))\<rparr>"

text \<open>Two command lines that differ in the output path only, with the seed given.\<close>

definition demo_args :: "string option \<Rightarrow> gen_args" where
  "demo_args out =
     \<lparr>arg_n = Some 4, arg_pattern = Some ''uniform'', arg_rho = 1 / 5,
      arg_seed = Some 5, arg_output = out\<rparr>"

section \<open>Basic facts\<close>

lemma ebind_Inr_iff: "ebind m f = Inr y \<longleftrightarrow> (\<exists>x. m = Inr x \<and> f x = Inr y)"
  by (cases m) (auto simp: ebind_def)

section \<open>The coefficient generator never leaves a zero on the diagonal\<close>

lemma off_entries_ok:
  "fst off_range \<le> snd off_range \<Longrightarrow>
   \<exists>xs g'. off_entries L density off_range m g = Inr (xs, g') \<and> length xs = m"
proof (induction m arbitrary: g)
  case 0
  then show ?case by simp
next
  case (Suc m)
  obtain r g1 where r: "rnd_random L g = (r, g1)" by (cases "rnd_random L g")
  obtain a g2 where a: "rnd_randint L (fst off_range) (snd off_range) g1 = (a, g2)"
    by (cases "rnd_randint L (fst off_range) (snd off_range) g1")
  obtain r2 g3 where r2: "rnd_random L g2 = (r2, g3)" by (cases "rnd_random L g2")
  from Suc.IH[OF Suc.prems, of g1] Suc.IH[OF Suc.prems, of g2] Suc.IH[OF Suc.prems, of g3]
  show ?case using Suc.prems r a r2
    by (auto simp: ebind_def py_randint_def)
qed

lemma gen_row_ok:
  assumes "fst diag_range \<le> snd diag_range" "fst off_range \<le> snd off_range"
  shows "\<exists>row g'. gen_row L n density diag_range off_range i g = Inr (row, g') \<and>
           length row = Suc (n - (i + 1)) \<and> hd row \<noteq> 0"
proof -
  obtain a g1 where a: "rnd_randint L (fst diag_range) (snd diag_range) g = (a, g1)"
    by (cases "rnd_randint L (fst diag_range) (snd diag_range) g")
  obtain r g2 where r: "rnd_random L g1 = (r, g2)" by (cases "rnd_random L g1")
  from off_entries_ok[OF assms(2), of L density "n - (i + 1)" g1]
       off_entries_ok[OF assms(2), of L density "n - (i + 1)" g2]
  show ?thesis using assms(1) a r
    by (auto simp: gen_row_def ebind_def py_randint_def)
qed

lemma gen_rows_ok:
  assumes "fst diag_range \<le> snd diag_range" "fst off_range \<le> snd off_range"
  shows "\<exists>rows g'. gen_rows L n density diag_range off_range js g = Inr (rows, g') \<and>
           length rows = length js \<and>
           (\<forall>k<length js. length (rows ! k) = Suc (n - (js ! k + 1)) \<and> hd (rows ! k) \<noteq> 0)"
proof (induction js arbitrary: g)
  case Nil
  then show ?case by simp
next
  case (Cons j js)
  obtain row g1 where row: "gen_row L n density diag_range off_range j g = Inr (row, g1)"
      "length row = Suc (n - (j + 1))" "hd row \<noteq> 0"
    using gen_row_ok[OF assms, of L n density j g] by blast
  obtain rows g2 where rows: "gen_rows L n density diag_range off_range js g1 = Inr (rows, g2)"
      "length rows = length js"
      "\<forall>k<length js. length (rows ! k) = Suc (n - (js ! k + 1)) \<and> hd (rows ! k) \<noteq> 0"
    using Cons.IH by blast
  have "\<forall>k<length (j # js). length ((row # rows) ! k) = Suc (n - ((j # js) ! k + 1)) \<and>
          hd ((row # rows) ! k) \<noteq> 0"
    using row(2,3) rows(3) by (simp add: All_less_Suc2)
  then show ?case using row(1) rows(1,2) by (simp add: ebind_def del: length_Cons nth_Cons_Suc)
qed

text \<open>
  Claim C7. For every size \<open>n\<close>, every density and every state of the random source
  (and every behaviour of the library's draws), \<open>gen_A_triangular\<close> called with
  non-empty ranges (the defaults \<open>(-10, 10)\<close> and \<open>(-5, 5)\<close> are such) returns
  \<open>n\<close> rows, row \<open>i\<close> holding \<open>n - i\<close> entries, and the first entry of every row,
  the diagonal coefficient, is not zero.
\<close>

theorem gen_A_triangular_diag_nonzero:
  assumes "fst diag_range \<le> snd diag_range" and "fst off_range \<le> snd off_range"
  shows "\<exists>rows g'. gen_A_triangular L n g density diag_range off_range = Inr (rows, g') \<and>
           length rows = n \<and>
           (\<forall>i<n. length (rows ! i) = n - i \<and> rows ! i \<noteq> [] \<and> hd (rows ! i) \<noteq> 0)"
proof -
  obtain rows g' where rows:
      "gen_rows L n density diag_range off_range [0..<n] g = Inr (rows, g')"
      "length rows = length [0..<n]"
      "\<forall>k<length [0..<n]. length (rows ! k) = Suc (n - ([0..<n] ! k + 1)) \<and> hd (rows ! k) \<noteq> 0"
    using gen_rows_ok[OF assms, of L n density "[0..<n]" g] by blast
  have "\<forall>i<n. length (rows ! i) = n - i \<and> rows ! i \<noteq> [] \<and> hd (rows ! i) \<noteq> 0"
  proof (intro allI impI)
    fix i assume "i < n"
    with rows(3) have "length (rows ! i) = Suc (n - (i + 1))" "hd (rows ! i) \<noteq> 0" by auto
    with \<open>i < n\<close> show "length (rows ! i) = n - i \<and> rows ! i \<noteq> [] \<and> hd (rows ! i) \<noteq> 0"
      by auto
  qed
  with rows(1,2) show ?thesis by (auto simp: gen_A_triangular_def)
qed


text \<open>The defaults on a source whose first draw for the diagonal is \<open>0\<close>: the
  zero is replaced by \<open>1\<close>.\<close>

theorem gen_A_triangular_diag_nonzero_witness:
  "fst (- 10 :: int, 10 :: int) \<le> snd (- 10 :: int, 10 :: int) \<and>
   fst (- 5 :: int, 5 :: int) \<le> snd (- 5 :: int, 5 :: int) \<and>
   gen_A_triangular demo_rng 2 10 (1/5) (- 10, 10) (- 5, 5) = Inr ([[1, 0], [3]], 14)"
  using gen_A_triangular_diag_nonzero [of "(- 10, 10)" "(- 5, 5)" demo_rng 2 10 "1/5"]
proof -
  have u: "[0..<2] = [0, Suc 0]" by (simp add: upt_conv_Cons)
  show ?thesis
    by (simp add: gen_A_triangular_def gen_row_def ebind_def py_randint_def demo_rng_def u)
qed

section \<open>Coverage repair\<close>

lemma count_elems_ok:
  "\<forall>k\<in>set ks. 0 \<le> k \<and> k < int (length covered) \<Longrightarrow>
   \<exists>c'. count_elems ks covered = Inr c' \<and> length c' = length covered \<and>
        (\<forall>p<length covered. (c' ! p = 0) = (covered ! p = 0 \<and> int p \<notin> set ks))"
proof (induction ks arbitrary: covered)
  case Nil
  then show ?case by simp
next
  case (Cons k ks)
  let ?c = "covered[nat k := covered ! nat k + 1]"
  have k: "0 \<le> k" "k < int (length covered)" using Cons.prems by auto
  then have idx: "list_index (length covered) k = Some (nat k)"
    by (simp add: list_index_def)
  have "\<forall>k\<in>set ks. 0 \<le> k \<and> k < int (length ?c)" using Cons.prems by simp
  from Cons.IH[OF this] obtain c' where c': "count_elems ks ?c = Inr c'"
      "length c' = length covered"
      "\<forall>p<length covered. (c' ! p = 0) = (?c ! p = 0 \<and> int p \<notin> set ks)"
    by auto
  have "\<forall>p<length covered. (c' ! p = 0) = (covered ! p = 0 \<and> int p \<notin> set (k # ks))"
  proof (intro allI impI)
    fix p assume p: "p < length covered"
    show "(c' ! p = 0) = (covered ! p = 0 \<and> int p \<notin> set (k # ks))"
    proof (cases "p = nat k")
      case True
      then show ?thesis using c'(3) p k by simp
    next
      case False
      then have "int p \<noteq> k" using k by auto
      then show ?thesis using c'(3) p False by simp
    qed
  qed
  then show ?case using idx c'(1,2) by simp
qed

lemma count_sets_ok:
  "\<forall>s\<in>set S. finite s \<and> (\<forall>k\<in>s. 0 \<le> k \<and> k < int (length covered)) \<Longrightarrow>
   \<exists>c'. count_sets S covered = Inr c' \<and> length c' = length covered \<and>
        (\<forall>p<length covered. (c' ! p = 0) = (covered ! p = 0 \<and> (\<forall>s\<in>set S. int p \<notin> s)))"
proof (induction S arbitrary: covered)
  case Nil
  then show ?case by simp
next
  case (Cons s S)
  have fs: "finite s" using Cons.prems by simp
  have "\<forall>k\<in>set (sorted_list_of_set s). 0 \<le> k \<and> k < int (length covered)"
    using Cons.prems fs by simp
  from count_elems_ok[OF this] obtain c1 where c1:
      "count_elems (sorted_list_of_set s) covered = Inr c1" "length c1 = length covered"
      "\<forall>p<length covered. (c1 ! p = 0) = (covered ! p = 0 \<and> int p \<notin> s)"
    using fs by auto
  have "\<forall>s\<in>set S. finite s \<and> (\<forall>k\<in>s. 0 \<le> k \<and> k < int (length c1))"
    using Cons.prems c1(2) by simp
  from Cons.IH[OF this] obtain c2 where c2: "count_sets S c1 = Inr c2"
      "length c2 = length covered"
      "\<forall>p<length covered. (c2 ! p = 0) = (c1 ! p = 0 \<and> (\<forall>s\<in>set S. int p \<notin> s))"
    using c1(2) by auto
  have "\<forall>p<length covered. (c2 ! p = 0) = (covered ! p = 0 \<and> (\<forall>t\<in>set (s # S). int p \<notin> t))"
    using c1(3) c2(3) by auto
  then show ?case using c1(1) c2(1,2) by (simp add: ebind_def)
qed

lemma fold_min_key:
  fixes key :: "nat \<Rightarrow> nat"
  assumes "sorted_wrt (<) (i # js)"
  defines "r \<equiv> fold (\<lambda>j best. if key j < key best then j else best) js i"
  shows "r \<in> set (i # js) \<and> (\<forall>j\<in>set (i # js). key r \<le> key j) \<and>
         (\<forall>j\<in>set (i # js). j < r \<longrightarrow> key r < key j)"
  using assms(1) unfolding r_def
proof (induction js rule: rev_induct)
  case Nil
  then show ?case by simp
next
  case (snoc x xs)
  let ?f = "\<lambda>j best. if key j < key best then j else best"
  let ?r = "fold ?f xs i"
  have sw: "sorted_wrt (<) (i # xs)" and gt: "\<forall>j\<in>set (i # xs). j < x"
    using snoc.prems by (auto simp: sorted_wrt_append)
  from snoc.IH[OF sw] have ih: "?r \<in> set (i # xs)" "\<forall>j\<in>set (i # xs). key ?r \<le> key j"
      "\<forall>j\<in>set (i # xs). j < ?r \<longrightarrow> key ?r < key j" by auto
  have rx: "?r < x" using ih(1) gt by blast
  show ?case
  proof (cases "key x < key ?r")
    case True
    then have e: "fold ?f (xs @ [x]) i = x" by simp
    have "\<forall>j\<in>set (i # xs). key x < key j" using True ih(2) by force
    then show ?thesis unfolding e using gt by auto
  next
    case False
    then have e: "fold ?f (xs @ [x]) i = ?r" by simp
    show ?thesis unfolding e using ih False rx by auto
  qed
qed

lemma smallest_index_spec: "smallest_index S = spec_smallest S"
proof (cases S)
  case Nil
  then show ?thesis by (simp add: smallest_index_def spec_smallest_def)
next
  case (Cons s T)
  let ?key = "\<lambda>i. card (S ! i)"
  let ?n = "length S"
  have "0 < ?n" using Cons by simp
  then have up: "[0..<?n] = 0 # [Suc 0..<?n]" by (rule upt_conv_Cons)
  define r where "r = fold (\<lambda>j best. if ?key j < ?key best then j else best) [Suc 0..<?n] 0"
  have si: "smallest_index S = Some r"
    unfolding smallest_index_def r_def up by simp
  have sw: "sorted_wrt (<) (0 # [Suc 0..<?n])" using up sorted_wrt_upt[of 0 ?n] by metis
  from fold_min_key[OF sw, of ?key] have
    r: "r \<in> set [0..<?n]" "\<forall>j\<in>set [0..<?n]. ?key r \<le> ?key j"
       "\<forall>j\<in>set [0..<?n]. j < r \<longrightarrow> ?key r < ?key j"
    unfolding r_def[symmetric] up by auto
  have rn: "r < ?n" using r(1) by simp
  have "find (\<lambda>i. \<forall>j \<in> set [0..<?n]. ?key i \<le> ?key j) [0..<?n] = Some r"
    unfolding find_Some_iff
  proof (intro exI[of _ r] conjI)
    show "r < length [0..<?n]" using rn by simp
    show "\<forall>j\<in>set [0..<?n]. ?key ([0..<?n] ! r) \<le> ?key j" using r(2) rn by simp
    show "r = [0..<?n] ! r" using rn by simp
    show "\<forall>j<r. \<not> (\<forall>ja\<in>set [0..<?n]. ?key ([0..<?n] ! j) \<le> ?key ja)"
    proof (intro allI impI)
      fix j assume j: "j < r"
      then have "j < ?n" using rn by simp
      then have "?key r < ?key j" using r(3) j by simp
      then have "\<not> ?key ([0..<?n] ! j) \<le> ?key r" using \<open>j < ?n\<close> by simp
      then show "\<not> (\<forall>ja\<in>set [0..<?n]. ?key ([0..<?n] ! j) \<le> ?key ja)"
        using r(1) by blast
    qed
  qed
  then show ?thesis using si by (simp add: spec_smallest_def)
qed

lemma spec_smallest_Some: "S \<noteq> [] \<Longrightarrow> \<exists>i. spec_smallest S = Some i \<and> i < length S"
proof -
  assume "S \<noteq> []"
  then have "0 < length S" by simp
  then have "[0..<length S] = 0 # [Suc 0..<length S]" by (rule upt_conv_Cons)
  then obtain i js where u: "[0..<length S] = i # js" by blast
  let ?r = "fold (\<lambda>j best. if card (S ! j) < card (S ! best) then j else best) js i"
  have sw: "sorted_wrt (<) (i # js)" using u sorted_wrt_upt[of 0 "length S"] by metis
  from fold_min_key[OF sw, of "\<lambda>i. card (S ! i)"] have "?r \<in> set [0..<length S]"
    unfolding u by blast
  moreover have "smallest_index S = Some ?r" by (simp add: smallest_index_def u)
  ultimately show ?thesis using smallest_index_spec[of S] by auto
qed

lemma spec_smallest_None: "spec_smallest [] = None"
  by (simp add: spec_smallest_def)

lemma spec_repair_Cons:
  "spec_repair (k # ks) S =
     spec_repair ks (case spec_smallest S of None \<Rightarrow> S | Some i \<Rightarrow> S[i := insert k (S ! i)])"
  by (simp add: spec_repair_def)

lemma spec_repair_Nil: "spec_repair [] S = S"
  by (simp add: spec_repair_def)

lemma add_missing_spec: "S \<noteq> [] \<Longrightarrow> add_missing ks S = Inr (spec_repair ks S)"
proof (induction ks arbitrary: S)
  case Nil
  then show ?case by (simp add: spec_repair_Nil)
next
  case (Cons k ks)
  from spec_smallest_Some[OF Cons.prems] obtain i where i: "spec_smallest S = Some i" "i < length S"
    by blast
  have ne: "S[i := insert k (S ! i)] \<noteq> []" using Cons.prems by simp
  show ?case using Cons.IH[OF ne] i(1)
    by (simp add: smallest_index_spec spec_repair_Cons)
qed

lemma spec_repair_props:
  "length (spec_repair ks S) = length S \<and>
   (\<forall>i<length S. S ! i \<subseteq> spec_repair ks S ! i) \<and>
   (\<forall>i<length S. spec_repair ks S ! i \<subseteq> S ! i \<union> set ks) \<and>
   (S \<noteq> [] \<longrightarrow> (\<forall>k\<in>set ks. \<exists>i<length S. k \<in> spec_repair ks S ! i))"
proof (induction ks arbitrary: S)
  case Nil
  then show ?case by (simp add: spec_repair_Nil)
next
  case (Cons k ks)
  show ?case
  proof (cases "S = []")
    case True
    then show ?thesis by (simp add: spec_repair_Cons spec_smallest_None spec_repair_Nil Cons.IH)
  next
    case False
    from spec_smallest_Some[OF False] obtain i where i: "spec_smallest S = Some i" "i < length S"
      by blast
    let ?T = "S[i := insert k (S ! i)]"
    have e: "spec_repair (k # ks) S = spec_repair ks ?T" by (simp add: spec_repair_Cons i(1))
    have ne: "?T \<noteq> []" using False by simp
    have lT: "length ?T = length S" by simp
    have ih1: "length (spec_repair ks ?T) = length ?T"
      and ih2: "\<And>j. j < length ?T \<Longrightarrow> ?T ! j \<subseteq> spec_repair ks ?T ! j"
      and ih3: "\<And>j. j < length ?T \<Longrightarrow> spec_repair ks ?T ! j \<subseteq> ?T ! j \<union> set ks"
      and ih4: "\<And>k'. k' \<in> set ks \<Longrightarrow> \<exists>j<length ?T. k' \<in> spec_repair ks ?T ! j"
      using Cons.IH[of ?T] ne by blast+
    have len: "length (spec_repair ks ?T) = length S" using ih1 by simp
    have sub: "\<forall>j<length S. S ! j \<subseteq> spec_repair ks ?T ! j"
    proof (intro allI impI)
      fix j assume j: "j < length S"
      have "S ! j \<subseteq> ?T ! j" using j by (cases "j = i") auto
      moreover have "?T ! j \<subseteq> spec_repair ks ?T ! j" using ih2[of j] j lT by metis
      ultimately show "S ! j \<subseteq> spec_repair ks ?T ! j" by blast
    qed
    have sup: "\<forall>j<length S. spec_repair ks ?T ! j \<subseteq> S ! j \<union> set (k # ks)"
    proof (intro allI impI)
      fix j assume j: "j < length S"
      have "?T ! j \<subseteq> insert k (S ! j)" using j by (cases "j = i") auto
      moreover have "spec_repair ks ?T ! j \<subseteq> ?T ! j \<union> set ks" using ih3[of j] j lT by metis
      ultimately show "spec_repair ks ?T ! j \<subseteq> S ! j \<union> set (k # ks)" by auto
    qed
    have "k \<in> ?T ! i" using i(2) by simp
    moreover have "?T ! i \<subseteq> spec_repair ks ?T ! i" using ih2[of i] i(2) lT by metis
    ultimately have ki: "\<exists>j<length S. k \<in> spec_repair ks ?T ! j" using i(2) by blast
    have rest: "\<forall>k'\<in>set ks. \<exists>j<length S. k' \<in> spec_repair ks ?T ! j"
      using ih4 lT by metis
    have all: "\<forall>k'\<in>set (k # ks). \<exists>j<length S. k' \<in> spec_repair ks ?T ! j"
      using ki rest by simp
    show ?thesis unfolding e using len sub sup all by blast
  qed
qed

lemma enforce_coverage_run:
  assumes "S \<noteq> []" and "\<forall>s\<in>set S. finite s \<and> s \<subseteq> {1..int n}"
  shows "\<exists>S'. enforce_coverage S n = Inr S' \<and>
           S' = spec_repair (filter (\<lambda>k. \<forall>s\<in>set S. k \<notin> s) [1..int n]) S \<and>
           length S' = length S \<and>
           (\<forall>i<length S. S ! i \<subseteq> S' ! i) \<and>
           (\<forall>k\<in>{1..int n}. \<exists>i<length S. k \<in> S' ! i)"
proof -
  let ?c0 = "replicate (n + 1) (0::nat)"
  let ?missing = "filter (\<lambda>k. \<forall>s\<in>set S. k \<notin> s) [1..int n]"
  let ?S' = "spec_repair ?missing S"
  have "\<forall>s\<in>set S. finite s \<and> (\<forall>k\<in>s. 0 \<le> k \<and> k < int (length ?c0))"
    using assms(2) by fastforce
  from count_sets_ok[OF this] obtain c where c: "count_sets S ?c0 = Inr c"
      "\<forall>p<n + 1. (c ! p = 0) = (?c0 ! p = 0 \<and> (\<forall>s\<in>set S. int p \<notin> s))"
    by auto
  have m: "filter (\<lambda>k. c ! nat k = 0) [1..int n] = ?missing"
  proof (rule filter_cong[OF refl])
    fix k assume "k \<in> set [1..int n]"
    then have k: "1 \<le> k" "k \<le> int n" by auto
    then have "nat k < n + 1" by linarith
    with c(2) have "(c ! nat k = 0) = (?c0 ! nat k = 0 \<and> (\<forall>s\<in>set S. int (nat k) \<notin> s))"
      by blast
    then show "(c ! nat k = 0) = (\<forall>s\<in>set S. k \<notin> s)" using k \<open>nat k < n + 1\<close> by simp
  qed
  have run: "enforce_coverage S n = Inr ?S'"
    using c(1) m add_missing_spec[OF assms(1), of ?missing]
    by (simp add: enforce_coverage_def ebind_def)
  note pr = spec_repair_props[of ?missing S]
  have cov: "\<forall>k\<in>{1..int n}. \<exists>i<length S. k \<in> ?S' ! i"
  proof
    fix k assume k: "k \<in> {1..int n}"
    show "\<exists>i<length S. k \<in> ?S' ! i"
    proof (cases "k \<in> set ?missing")
      case True
      then show ?thesis using pr assms(1) by blast
    next
      case False
      then obtain s where "s \<in> set S" "k \<in> s" using k by auto
      then obtain i where "i < length S" "k \<in> S ! i" by (auto simp: in_set_conv_nth)
      moreover have "S ! i \<subseteq> ?S' ! i" using pr \<open>i < length S\<close> by blast
      ultimately show ?thesis by blast
    qed
  qed
  show ?thesis using run pr cov by blast
qed

text \<open>
  Claim C8. On a non-empty list of finite covering sets over \<open>1..n\<close>,
  \<open>enforce_coverage\<close> returns the list that the specification's repair gives: the
  elements of \<open>1..n\<close> that no set holds, in ascending order, each added to the set that
  is smallest when its turn comes, the lowest index among equally small sets. The list
  keeps its length, every set keeps all its elements, and afterwards every element of
  \<open>1..n\<close> is in some set. (On an empty list with an element missing, \<open>min\<close> raises.)
\<close>

theorem enforce_coverage_repairs:
  assumes "S \<noteq> []" and "\<forall>s\<in>set S. finite s \<and> s \<subseteq> {1..int n}"
  shows "\<exists>S'. enforce_coverage S n = Inr S' \<and>
           S' = spec_repair (filter (\<lambda>k. \<forall>s\<in>set S. k \<notin> s) [1..int n]) S \<and>
           length S' = length S \<and>
           (\<forall>i<length S. S ! i \<subseteq> S' ! i) \<and>
           (\<forall>k\<in>{1..int n}. \<exists>i<length S. k \<in> S' ! i)"
  using assms by (rule enforce_coverage_run)

text \<open>Three sets over \<open>1..5\<close> with \<open>3\<close>, \<open>4\<close> and \<open>5\<close> missing: \<open>3\<close> goes to the empty
  set, \<open>4\<close> to the same set (sizes 2, 1, 1: the lower index wins the tie), \<open>5\<close> to the
  last one (sizes 2, 2, 1).\<close>

theorem enforce_coverage_repairs_witness:
  "[{1::int, 2}, {}, {2}] \<noteq> [] \<and>
   finite {1::int, 2} \<and> {1::int, 2} \<subseteq> {1..int 5} \<and>
   finite ({}::int set) \<and> ({}::int set) \<subseteq> {1..int 5} \<and>
   finite {2::int} \<and> {2::int} \<subseteq> {1..int 5} \<and>
   enforce_coverage [{1, 2}, {}, {2}] 5 = Inr [{1, 2}, {3, 4}, {2, 5}] \<and>
   spec_repair (filter (\<lambda>k. \<forall>s\<in>set [{1::int, 2}, {}, {2}]. k \<notin> s) [1..int 5]) [{1, 2}, {}, {2}]
     = [{1, 2}, {3, 4}, {2, 5}]"
proof -
  have run: "enforce_coverage [{1::int, 2}, {}, {2}] 5 = Inr [{1, 2}, {3, 4}, {2, 5}]"
    by code_simp
  have "\<forall>s\<in>set [{1::int, 2}, {}, {2}]. finite s \<and> s \<subseteq> {1..int 5}" by simp
  from enforce_coverage_repairs [OF _ this] run show ?thesis by simp
qed

section \<open>The patterns and the two repairs\<close>

lemma uniform_set_ok:
  "finite (fst (uniform_set L p ks g)) \<and> fst (uniform_set L p ks g) \<subseteq> set ks"
proof (induction ks arbitrary: g)
  case Nil
  then show ?case by simp
next
  case (Cons k ks)
  obtain r g1 where r: "rnd_random L g = (r, g1)" by (cases "rnd_random L g")
  obtain s g2 where s: "uniform_set L p ks g1 = (s, g2)" by (cases "uniform_set L p ks g1")
  from Cons.IH[of g1] s have "finite s" "s \<subseteq> set ks" by auto
  then show ?case using r s by auto
qed

lemma uniform_loop_ok:
  "length (fst (uniform_loop L p n m g)) = m \<and> wf_sets n (fst (uniform_loop L p n m g))"
proof (induction m arbitrary: g)
  case 0
  then show ?case by (simp add: wf_sets_def)
next
  case (Suc m)
  obtain s g1 where s: "uniform_set L p [1..int n] g = (s, g1)"
    by (cases "uniform_set L p [1..int n] g")
  obtain S g2 where S: "uniform_loop L p n m g1 = (S, g2)" by (cases "uniform_loop L p n m g1")
  from uniform_set_ok[of L p "[1..int n]" g] s have "finite s" "s \<subseteq> {1..int n}" by auto
  moreover from Suc.IH[of g1] S have "length S = m" "wf_sets n S" by auto
  ultimately show ?case using s S by (simp add: wf_sets_def)
qed

lemma pattern_uniform_ok:
  assumes "1 \<le> n"
  shows "\<exists>S g'. pattern_uniform L n g = Inr (S, g') \<and> length S = n \<and> wf_sets n S"
proof -
  let ?p = "real_of_int (avg_size n) / real n"
  obtain S g' where S: "uniform_loop L ?p n n g = (S, g')" by (cases "uniform_loop L ?p n n g")
  from uniform_loop_ok[of L ?p n n g] S have "length S = n" "wf_sets n S" by auto
  then show ?thesis using assms S by (simp add: pattern_uniform_def Let_def)
qed

lemma interval_loop_ok:
  assumes "1 \<le> n"
  shows "length (fst (interval_loop L n avg js g)) = length js \<and>
         wf_sets n (fst (interval_loop L n avg js g))"
proof (induction js arbitrary: g)
  case Nil
  then show ?case by (simp add: wf_sets_def)
next
  case (Cons i js)
  obtain r g1 where r: "rnd_random L g = (r, g1)" by (cases "rnd_random L g")
  obtain S g2 where S: "interval_loop L n avg js g1 = (S, g2)"
    by (cases "interval_loop L n avg js g1")
  let ?len = "max 1 (py_round (real_of_int avg * (1 / 2 + r)))"
  let ?elems = "map (\<lambda>t. ((i - 1 + t) mod int n) + 1) [0..?len - 1]"
  have "1 \<le> ((i - 1 + t) mod int n) + 1 \<and> ((i - 1 + t) mod int n) + 1 \<le> int n" for t
    using assms pos_mod_bound[of "int n" "i - 1 + t"] pos_mod_sign[of "int n" "i - 1 + t"]
    by linarith
  then have el: "set ?elems \<subseteq> {1..int n}" by auto
  from Cons.IH[of g1] S have "length S = length js" "wf_sets n S" by auto
  then show ?case using r S el by (simp add: wf_sets_def Let_def)
qed

lemma pattern_interval_ok:
  assumes "1 \<le> n"
  shows "length (fst (pattern_interval L n g)) = n \<and> wf_sets n (fst (pattern_interval L n g))"
  using interval_loop_ok[OF assms, of L "avg_size n" "[1..int n]" g]
  by (simp add: pattern_interval_def Let_def)

lemma pareto_loop_ok:
  assumes "sample_in_population L"
  shows "\<exists>S g'. pareto_loop L n avg m g = Inr (S, g') \<and> length S = m \<and> wf_sets n S"
proof (induction m arbitrary: g)
  case 0
  then show ?case by (simp add: wf_sets_def)
next
  case (Suc m)
  obtain v g1 where v: "rnd_paretovariate L 2 g = (v, g1)"
    by (cases "rnd_paretovariate L 2 g")
  let ?size = "max 1 (min (3 * avg) (py_round (real_of_int avg * min v 3)))"
  have size1: "1 \<le> ?size" by simp
  obtain xs g2 where xs: "rnd_sample L [1..int n] ?size g1 = (xs, g2)"
    by (cases "rnd_sample L [1..int n] ?size g1")
  define s g3 where "s = (if int n \<le> ?size then set [1..int n] else set xs)"
    and "g3 = (if int n \<le> ?size then g1 else g2)"
  have first: "(if int n \<le> ?size then Inr (set [1..int n], g1)
            else ebind (py_sample L [1..int n] ?size g1) (\<lambda>(xs, g2). Inr (set xs, g2)))
        = Inr (s, g3)"
    using size1 xs by (auto simp: s_def g3_def py_sample_def ebind_def)
  have "set xs \<subseteq> set [1..int n]" if "\<not> int n \<le> ?size"
  proof -
    have gen: "1 \<le> z \<Longrightarrow> \<not> int n \<le> z \<Longrightarrow> 0 \<le> z \<and> z \<le> int (length [1..int n])"
      for z :: int by simp
    have "0 \<le> ?size \<and> ?size \<le> int (length [1..int n])" by (rule gen[OF size1 that])
    with assms have "set (fst (rnd_sample L [1..int n] ?size g1)) \<subseteq> set [1..int n]"
      unfolding sample_in_population_def by blast
    then show ?thesis using xs by simp
  qed
  then have s: "finite s" "s \<subseteq> {1..int n}" by (auto simp: s_def)
  from Suc.IH[of g3] obtain S g4 where S: "pareto_loop L n avg m g3 = Inr (S, g4)"
      "length S = m" "wf_sets n S" by blast
  have "pareto_loop L n avg (Suc m) g = Inr (s # S, g4)"
    apply (subst pareto_loop.simps)
    apply (simp only: v Let_def prod.case first)
    apply (simp add: ebind_def S(1))
    done
  then show ?case using S(2,3) s by (simp add: wf_sets_def)
qed

lemma pattern_pareto_ok:
  assumes "sample_in_population L"
  shows "\<exists>S g'. pattern_pareto L n g = Inr (S, g') \<and> length S = n \<and> wf_sets n S"
  using pareto_loop_ok[OF assms, of n "avg_size n" n g] by (simp add: pattern_pareto_def Let_def)

lemma nonempty_fix_ok:
  assumes "1 \<le> n"
  shows "\<exists>S' g'. nonempty_fix L S n g = Inr (S', g') \<and> length S' = length S \<and>
           (\<forall>i<length S. S ! i \<subseteq> S' ! i \<and> S' ! i \<noteq> {})"
proof (induction S arbitrary: g)
  case Nil
  then show ?case by simp
next
  case (Cons s S)
  obtain k g1 where k: "rnd_randrange L 1 (int n + 1) g = (k, g1)"
    by (cases "rnd_randrange L 1 (int n + 1) g")
  define s' g2 where "s' = (if s = {} then insert k s else s)"
    and "g2 = (if s = {} then g1 else g)"
  have first: "(if s = {} then
          ebind (py_randrange L 1 (int n + 1) g) (\<lambda>(k, g1). Inr (insert k s, g1))
        else Inr (s, g)) = Inr (s', g2)"
    using assms k by (auto simp: s'_def g2_def py_randrange_def ebind_def)
  have s': "s \<subseteq> s'" "s' \<noteq> {}" by (auto simp: s'_def)
  from Cons.IH[of g2] obtain S' g3 where S': "nonempty_fix L S n g2 = Inr (S', g3)"
      "length S' = length S" "\<forall>i<length S. S ! i \<subseteq> S' ! i \<and> S' ! i \<noteq> {}" by blast
  have run: "nonempty_fix L (s # S) n g = Inr (s' # S', g3)"
    using first S'(1) by (simp add: ebind_def)
  have "\<forall>i<length (s # S). (s # S) ! i \<subseteq> (s' # S') ! i \<and> (s' # S') ! i \<noteq> {}"
    using s' S'(3) by (simp add: All_less_Suc2)
  then show ?case using run S'(2) by (simp del: nth_Cons_Suc)
qed

lemma sample_demo_rng: "sample_in_population demo_rng"
  unfolding sample_in_population_def demo_rng_def
  by (auto dest!: in_set_takeD)

lemma avg_size_4: "avg_size 4 = 2"
  by (simp add: avg_size_def py_round_def)

text \<open>
  Claim C2. For every \<open>n \<ge> 1\<close>, each of the three patterns and every state of the
  random source, \<open>build_sets\<close> returns (it raises nothing) a list of \<open>n\<close> covering
  sets in which every element of \<open>1..n\<close> belongs to some set and no set is empty. The
  only fact used of the library is that \<open>sample\<close> returns elements of its population.
\<close>

theorem build_sets_invariants:
  assumes "1 \<le> n" and "pattern \<in> {''uniform'', ''interval'', ''pareto''}"
    and "sample_in_population L"
  shows "\<exists>S g'. build_sets L n pattern g = Inr (S, g') \<and> length S = n \<and>
           (\<forall>k\<in>{1..int n}. \<exists>i<n. k \<in> S ! i) \<and> (\<forall>i<n. S ! i \<noteq> {})"
proof -
  let ?pat = "if pattern = ''uniform'' then pattern_uniform L n g
        else if pattern = ''interval'' then Inr (pattern_interval L n g)
        else if pattern = ''pareto'' then pattern_pareto L n g
        else Inl (ValueError (''Padr'' @ [CHR 0xE3] @ ''o desconhecido: '' @ pattern))"
  have "\<exists>S0 g1. ?pat = Inr (S0, g1) \<and> length S0 = n \<and> wf_sets n S0"
  proof -
    consider "pattern = ''uniform''" | "pattern = ''interval''" | "pattern = ''pareto''"
      using assms(2) by blast
    then show ?thesis
    proof cases
      case 1
      then show ?thesis using pattern_uniform_ok[OF assms(1), of L g] by simp
    next
      case 2
      obtain S0 g1 where "pattern_interval L n g = (S0, g1)" by (cases "pattern_interval L n g")
      then show ?thesis using 2 pattern_interval_ok[OF assms(1), of L g] by simp
    next
      case 3
      then show ?thesis using pattern_pareto_ok[OF assms(3), of n g] by simp
    qed
  qed
  then obtain S0 g1 where S0: "?pat = Inr (S0, g1)" "length S0 = n" "wf_sets n S0" by blast
  have ne: "S0 \<noteq> []" using S0(2) assms(1) by auto
  have "\<forall>s\<in>set S0. finite s \<and> s \<subseteq> {1..int n}" using S0(3) by (simp add: wf_sets_def)
  from enforce_coverage_run[OF ne this] obtain S1 where S1: "enforce_coverage S0 n = Inr S1"
      "length S1 = n" "\<forall>k\<in>{1..int n}. \<exists>i<n. k \<in> S1 ! i"
    using S0(2) by auto
  from nonempty_fix_ok[OF assms(1), of L S1 g1] obtain S2 g2 where
      S2: "nonempty_fix L S1 n g1 = Inr (S2, g2)" "length S2 = n"
      "\<forall>i<n. S1 ! i \<subseteq> S2 ! i \<and> S2 ! i \<noteq> {}"
    using S1(2) by auto
  have run: "build_sets L n pattern g = Inr (S2, g2)"
    unfolding build_sets_def S0(1) using S1(1) S2(1) by (simp add: ebind_def)
  have "\<forall>k\<in>{1..int n}. \<exists>i<n. k \<in> S2 ! i"
  proof
    fix k assume "k \<in> {1..int n}"
    with S1(3) obtain i where "i < n" "k \<in> S1 ! i" by blast
    with S2(3) show "\<exists>i<n. k \<in> S2 ! i" by blast
  qed
  with run S2(2,3) show ?thesis by blast
qed

text \<open>The uniform pattern at \<open>n = 4\<close> on the example source: the first set comes out
  empty, every element is covered by the others, and the non-empty repair fills it.\<close>

lemma demo_build_sets:
  "build_sets demo_rng 4 ''uniform'' 5 = Inr ([{2}, {2, 3, 4}, {1, 2}, {4}], 22)"
proof -
  have p: "pattern_uniform demo_rng 4 5 = Inr (uniform_loop demo_rng (1 / 2) 4 4 5)"
    by (simp add: pattern_uniform_def avg_size_4)
  have l: "uniform_loop demo_rng (1 / 2) 4 4 5 = ([{}, {2, 3, 4}, {1, 2}, {4}], 21)"
    by code_simp
  have e: "enforce_coverage [{}, {2, 3, 4}, {1, 2}, {4}] 4 = Inr [{}, {2, 3, 4}, {1, 2}, {4}]"
    by code_simp
  have f: "nonempty_fix demo_rng [{}, {2, 3, 4}, {1, 2}, {4}] 4 21
             = Inr ([{2}, {2, 3, 4}, {1, 2}, {4}], 22)"
    by (simp add: ebind_def py_randrange_def demo_rng_def)
  show ?thesis
    by (simp add: build_sets_def p l e f ebind_def del: nonempty_fix.simps)
qed

theorem build_sets_invariants_witness:
  "(1::nat) \<le> 4 \<and> ''uniform'' \<in> {''uniform'', ''interval'', ''pareto''} \<and>
   sample_in_population demo_rng \<and>
   build_sets demo_rng 4 ''uniform'' 5 = Inr ([{2}, {2, 3, 4}, {1, 2}, {4}], 22)"
  using build_sets_invariants [of 4 "''uniform''" demo_rng 5] sample_demo_rng demo_build_sets
  by simp

section \<open>The parser\<close>

subsection \<open>Readers on a longer stream\<close>

lemma read_n_append:
  "read_n ti toks = Inr (n, rest) \<Longrightarrow> read_n ti (toks @ extra) = Inr (n, rest @ extra)"
  by (cases toks) (auto simp: read_n_def split: option.splits)

lemma read_sizes_append:
  "read_sizes ti m toks = Inr (vs, rest) \<Longrightarrow>
   read_sizes ti m (toks @ extra) = Inr (vs, rest @ extra)"
proof (induction ti m toks arbitrary: vs rest rule: read_sizes.induct)
  case (1 ti toks)
  then show ?case by simp
next
  case (2 ti m)
  then show ?case by simp
next
  case (3 ti m t ts)
  from "3.prems" obtain v where v: "ti t = Some v" by (auto split: option.splits)
  with "3.prems" obtain vs' where r: "read_sizes ti m ts = Inr (vs', rest)" "vs = v # vs'"
    by (auto simp: ebind_Inr_iff)
  from "3.IH"[OF v r(1)] show ?case using v r(2) by (simp add: ebind_def)
qed

lemma read_coeffs_append:
  "read_coeffs tf m toks = Inr (vs, rest) \<Longrightarrow>
   read_coeffs tf m (toks @ extra) = Inr (vs, rest @ extra)"
proof (induction tf m toks arbitrary: vs rest rule: read_coeffs.induct)
  case (1 tf toks)
  then show ?case by simp
next
  case (2 tf m)
  then show ?case by simp
next
  case (3 tf m t ts)
  from "3.prems" obtain v where v: "tf t = Some v" by (auto split: option.splits)
  with "3.prems" obtain vs' where r: "read_coeffs tf m ts = Inr (vs', rest)" "vs = v # vs'"
    by (auto simp: ebind_Inr_iff)
  from "3.IH"[OF v r(1)] show ?case using v r(2) by (simp add: ebind_def)
qed

lemma read_elems_append:
  "read_elems ti n i m toks = Inr (s, rest) \<Longrightarrow>
   read_elems ti n i m (toks @ extra) = Inr (s, rest @ extra)"
proof (induction ti n i m toks arbitrary: s rest rule: read_elems.induct)
  case (1 ti n i toks)
  then show ?case by simp
next
  case (2 ti n i m)
  then show ?case by simp
next
  case (3 ti n i m t ts)
  from "3.prems" obtain k where k: "ti t = Some k" by (auto split: option.splits)
  with "3.prems" have ok: "\<not> \<not> (1 \<le> k \<and> k \<le> n)" by (auto split: if_splits)
  with k "3.prems" obtain s' where r: "read_elems ti n i m ts = Inr (s', rest)"
      "s = insert (k - 1) s'"
    by (auto simp: ebind_Inr_iff)
  from "3.IH"[OF k ok r(1)] show ?case using k ok r(2) by (simp add: ebind_def)
qed

lemma read_subsets_append:
  "read_subsets ti n i sizes toks = Inr (S, rest) \<Longrightarrow>
   read_subsets ti n i sizes (toks @ extra) = Inr (S, rest @ extra)"
proof (induction sizes arbitrary: i toks S rest)
  case Nil
  then show ?case by simp
next
  case (Cons need sizes)
  from Cons.prems obtain s r1 S' where
    a: "read_elems ti n i (nat need) toks = Inr (s, r1)"
       "read_subsets ti n (Suc i) sizes r1 = Inr (S', rest)" "S = s # S'"
    by (auto simp: ebind_Inr_iff)
  from read_elems_append[OF a(1)] Cons.IH[OF a(2)] a(3) show ?case
    by (simp add: ebind_def)
qed

lemma parse_tokens_append:
  assumes "parse_tokens to_int to_float toks = Inr r"
  shows "parse_tokens to_int to_float (toks @ extra) = Inr r"
proof -
  from assms obtain n t1 s t2 subsets t3 coeffs t4 A where
    a: "read_n to_int toks = Inr (n, t1)"
       "read_sizes to_int (nat n) t1 = Inr (s, t2)"
       "read_subsets to_int n 0 s t2 = Inr (subsets, t3)"
       "read_coeffs to_float (nat (n * (n + 1) div 2)) t3 = Inr (coeffs, t4)"
       "fill_A (index_pairs (nat n)) coeffs 0 [] = Inr A"
       "r = (n, subsets, A)"
    unfolding parse_tokens_def by (auto simp: ebind_Inr_iff)
  show ?thesis
    unfolding parse_tokens_def
    using read_n_append[OF a(1), of extra] read_sizes_append[OF a(2), of extra]
      read_subsets_append[OF a(3), of extra] read_coeffs_append[OF a(4), of extra] a(5,6)
    by (simp add: ebind_def)
qed

text \<open>
  Claim C10. \<open>parse_instance\<close> does not ask for the end of the token stream: if a file
  parses, every file whose token stream is that of the first followed by further
  tokens, whatever they are, parses to the same result.
\<close>

theorem parse_ignores_surplus:
  assumes "parse_instance to_int to_float content = Inr r"
    and "token_stream (readlines content') = token_stream (readlines content) @ extra"
  shows "parse_instance to_int to_float content' = Inr r"
  using assms parse_tokens_append [of to_int to_float "token_stream (readlines content)" r extra]
  by (simp add: parse_instance_def)


subsection \<open>What each reader returns\<close>

lemma read_sizes_spec:
  "read_sizes ti m toks =
     (case find (\<lambda>t. ti t = None) (take m toks) of
        Some t \<Rightarrow> Inl (ConversionError t)
      | None \<Rightarrow>
          if length toks < m then Inl (ValueError ''Linha de tamanhos s_i incompleta.'')
          else Inr (map (\<lambda>t. the (ti t)) (take m toks), drop m toks))"
proof (induction ti m toks rule: read_sizes.induct)
  case (1 ti toks)
  then show ?case by simp
next
  case (2 ti m)
  then show ?case by simp
next
  case (3 ti m t ts)
  show ?case
  proof (cases "ti t")
    case None
    then show ?thesis by simp
  next
    case (Some v)
    from "3.IH"[OF Some] show ?thesis using Some
      by (simp add: ebind_def split: option.splits)
  qed
qed

lemma read_coeffs_spec:
  "read_coeffs tf m toks =
     (case find (\<lambda>t. tf t = None) (take m toks) of
        Some t \<Rightarrow> Inl (ConversionError t)
      | None \<Rightarrow>
          if length toks < m then Inl (ValueError ''Matriz A (triangular superior) incompleta.'')
          else Inr (map (\<lambda>t. the (tf t)) (take m toks), drop m toks))"
proof (induction tf m toks rule: read_coeffs.induct)
  case (1 tf toks)
  then show ?case by simp
next
  case (2 tf m)
  then show ?case by simp
next
  case (3 tf m t ts)
  show ?case
  proof (cases "tf t")
    case None
    then show ?thesis by simp
  next
    case (Some v)
    from "3.IH"[OF Some] show ?thesis using Some
      by (simp add: ebind_def split: option.splits)
  qed
qed

lemma read_elems_spec:
  "read_elems ti n i m toks =
     (case find (bad_elem ti n) (take m toks) of
        Some t \<Rightarrow> Inl (elem_error ti n t)
      | None \<Rightarrow>
          if length toks < m then
            Inl (ValueError (''Lista de cobertura de S'' @ py_str (int i + 1) @ '' incompleta.''))
          else Inr ((\<lambda>t. the (ti t) - 1) ` set (take m toks), drop m toks))"
proof (induction ti n i m toks rule: read_elems.induct)
  case (1 ti n i toks)
  then show ?case by simp
next
  case (2 ti n i m)
  then show ?case by simp
next
  case (3 ti n i m t ts)
  show ?case
  proof (cases "ti t")
    case None
    then show ?thesis by (simp add: bad_elem_def elem_error_def)
  next
    case (Some k)
    show ?thesis
    proof (cases "1 \<le> k \<and> k \<le> n")
      case False
      then show ?thesis using Some by (auto simp: bad_elem_def elem_error_def)
    next
      case True
      then have nn: "\<not> \<not> (1 \<le> k \<and> k \<le> n)" by simp
      have nb: "\<not> bad_elem ti n t" using Some True by (simp add: bad_elem_def)
      from "3.IH"[OF Some nn] show ?thesis using Some True nb
        by (auto simp: ebind_def split: option.splits)
    qed
  qed
qed

lemma find_append:
  "find P (xs @ ys) = (case find P xs of Some x \<Rightarrow> Some x | None \<Rightarrow> find P ys)"
  by (induction xs) auto

lemma read_subsets_spec:
  "(case find (bad_elem ti n) (take (sum_list (map nat needs)) toks) of
      Some t \<Rightarrow> read_subsets ti n i needs toks = Inl (elem_error ti n t)
    | None \<Rightarrow>
        if length toks < sum_list (map nat needs) then
          read_subsets ti n i needs toks =
            Inl (ValueError (''Lista de cobertura de S''
                  @ py_str (int (i + set_index (map nat needs) (length toks)) + 1)
                  @ '' incompleta.''))
        else (\<exists>S. read_subsets ti n i needs toks = Inr (S, drop (sum_list (map nat needs)) toks) \<and>
                  length S = length needs))"
proof (induction needs arbitrary: i toks)
  case Nil
  then show ?case by simp
next
  case (Cons need needs)
  let ?bad = "bad_elem ti n"
  let ?m = "nat need"
  let ?tot = "sum_list (map nat needs)"
  have split: "take (?m + ?tot) toks = take ?m toks @ take ?tot (drop ?m toks)"
    by (simp add: take_add)
  note el = read_elems_spec[of ti n i ?m toks]
  have sum: "sum_list (map nat (need # needs)) = ?m + ?tot" by simp
  show ?case
  proof (cases "find ?bad (take ?m toks)")
    case (Some t)
    then have "read_elems ti n i ?m toks = Inl (elem_error ti n t)"
      using el by simp
    then have "read_subsets ti n i (need # needs) toks = Inl (elem_error ti n t)"
      by (simp add: ebind_def)
    moreover have "find ?bad (take (?m + ?tot) toks) = Some t"
      unfolding split find_append using Some by simp
    ultimately show ?thesis unfolding sum by simp
  next
    case None
    show ?thesis
    proof (cases "length toks < ?m")
      case True
      then have "read_elems ti n i ?m toks =
          Inl (ValueError (''Lista de cobertura de S'' @ py_str (int i + 1) @ '' incompleta.''))"
        using el None by simp
      then have r: "read_subsets ti n i (need # needs) toks =
          Inl (ValueError (''Lista de cobertura de S'' @ py_str (int i + 1) @ '' incompleta.''))"
        by (simp add: ebind_def)
      have "find ?bad (take (?m + ?tot) toks) = None"
        unfolding split find_append using None True by simp
      moreover have "length toks < ?m + ?tot" using True by simp
      moreover have "set_index (map nat (need # needs)) (length toks) = 0" using True by simp
      ultimately show ?thesis unfolding sum using r by simp
    next
      case False
      let ?s = "(\<lambda>t. the (ti t) - 1) ` set (take ?m toks)"
      have e: "read_elems ti n i ?m toks = Inr (?s, drop ?m toks)"
        using el None False by simp
      have r: "read_subsets ti n i (need # needs) toks =
          ebind (read_subsets ti n (Suc i) needs (drop ?m toks)) (\<lambda>(S, rest'). Inr (?s # S, rest'))"
        using e by (simp add: ebind_def)
      note ih = Cons.IH[of "drop ?m toks" "Suc i"]
      have f: "find ?bad (take (?m + ?tot) toks) = find ?bad (take ?tot (drop ?m toks))"
        unfolding split find_append using None by simp
      show ?thesis
      proof (cases "find ?bad (take ?tot (drop ?m toks))")
        case (Some t)
        with ih have "read_subsets ti n (Suc i) needs (drop ?m toks) = Inl (elem_error ti n t)"
          by simp
        then show ?thesis unfolding sum f Some r by (simp add: ebind_def)
      next
        case None2: None
        show ?thesis
        proof (cases "length (drop ?m toks) < ?tot")
          case True
          with ih None2 have "read_subsets ti n (Suc i) needs (drop ?m toks) =
            Inl (ValueError (''Lista de cobertura de S''
                  @ py_str (int (Suc i + set_index (map nat needs) (length (drop ?m toks))) + 1)
                  @ '' incompleta.''))" by simp
          moreover have "length toks < ?m + ?tot" using True False by simp
          moreover have "set_index (map nat (need # needs)) (length toks)
                           = Suc (set_index (map nat needs) (length (drop ?m toks)))"
            using False by simp
          ultimately show ?thesis unfolding sum f None2 r by (simp add: ebind_def)
        next
          case F2: False
          with ih None2 obtain S where
            S: "read_subsets ti n (Suc i) needs (drop ?m toks) = Inr (S, drop ?tot (drop ?m toks))"
               "length S = length needs" by auto
          have "\<not> length toks < ?m + ?tot" using F2 False by simp
          moreover have "drop ?tot (drop ?m toks) = drop (?m + ?tot) toks"
            by (simp add: add.commute)
          ultimately show ?thesis unfolding sum f None2 r using S by (simp add: ebind_def)
        qed
      qed
    qed
  qed
qed

subsection \<open>Filling the dictionary\<close>

lemma sum_rows_twice:
  "n \<le> m \<Longrightarrow> 2 * sum_list (map (\<lambda>i. m - i) [0..<n]) + n * n = n * (2 * m + 1)"
proof (induction n)
  case 0
  then show ?case by simp
next
  case (Suc n)
  then have ih: "2 * sum_list (map (\<lambda>i. m - i) [0..<n]) + n * n = n * (2 * m + 1)" by simp
  have "2 * (m - n) + 2 * n = 2 * m" using Suc.prems by simp
  then show ?case using ih by (simp add: algebra_simps)
qed

lemma length_index_pairs: "length (index_pairs n) = n * (n + 1) div 2"
proof -
  have "length (index_pairs n) = sum_list (map (\<lambda>i. n - i) [0..<n])"
    by (simp add: index_pairs_def length_concat o_def)
  moreover have "2 * sum_list (map (\<lambda>i. n - i) [0..<n]) + n * n = n * (2 * n + 1)"
    by (rule sum_rows_twice) simp
  then have "2 * sum_list (map (\<lambda>i. n - i) [0..<n]) = n * (n + 1)"
    by (simp add: algebra_simps)
  ultimately show ?thesis by simp
qed

lemma needed_nat: "length (index_pairs (nat n)) \<le> nat (n * (n + 1) div 2)"
proof (cases "0 \<le> n")
  case True
  then obtain k where k: "n = int k" using nonneg_int_cases by blast
  have "int (k * (k + 1) div 2) = int (k * (k + 1)) div 2" by (simp add: zdiv_int)
  moreover have "int (k * (k + 1)) = int k * (int k + 1)" by (simp add: algebra_simps)
  ultimately have "int k * (int k + 1) div 2 = int (k * (k + 1) div 2)" by simp
  then show ?thesis unfolding k by (simp add: length_index_pairs)
next
  case False
  then show ?thesis by (simp add: index_pairs_def)
qed

lemma fill_A_total:
  "idx + length ps \<le> length coeffs \<Longrightarrow> \<exists>A'. fill_A ps coeffs idx A = Inr A'"
proof (induction ps arbitrary: idx A)
  case Nil
  then show ?case by simp
next
  case (Cons p ps)
  then have "\<not> length coeffs \<le> idx" "Suc idx + length ps \<le> length coeffs" by simp_all
  with Cons.IH[of "Suc idx"] show ?case by (simp add: Let_def)
qed


subsection \<open>The situations in which parsing fails\<close>

lemma sizes_as_nats:
  "map nat (map (\<lambda>t. the (ti t)) ts) = map (\<lambda>t. nat (the (ti t))) ts"
  by simp

lemma parse_tokens_outcome:
  "case spec_parse_outcome to_int to_float toks of
     Some e \<Rightarrow> parse_tokens to_int to_float toks = Inl e
   | None \<Rightarrow> \<exists>r. parse_tokens to_int to_float toks = Inr r"
proof (cases toks)
  case Nil
  then show ?thesis by (simp add: spec_parse_outcome_def parse_tokens_def read_n_def ebind_def)
next
  case (Cons t0 ts)
  show ?thesis
  proof (cases "to_int t0")
    case None
    then show ?thesis using Cons
      by (simp add: spec_parse_outcome_def parse_tokens_def read_n_def ebind_def)
  next
    case (Some n)
    have rn: "read_n to_int toks = Inr (n, ts)" using Cons Some by (simp add: read_n_def)
    let ?needed = "nat (n * (n + 1) div 2)"
    let ?zs = "take (nat n) ts"
    have sp0: "spec_parse_outcome to_int to_float toks =
        (case find (\<lambda>t. to_int t = None) ?zs of
           Some t \<Rightarrow> Some (ConversionError t)
         | None \<Rightarrow>
             if length ts < nat n then
               Some (ValueError ''Linha de tamanhos s_i incompleta.'')
             else
               (let sizes = map (\<lambda>t. nat (the (to_int t))) ?zs;
                    after_sizes = drop (nat n) ts;
                    total = sum_list sizes
                in case find (bad_elem to_int n) (take total after_sizes) of
                     Some t \<Rightarrow> Some (elem_error to_int n t)
                   | None \<Rightarrow>
                       if length after_sizes < total then
                         Some (ValueError (''Lista de cobertura de S''
                               @ py_str (int (set_index sizes (length after_sizes)) + 1)
                               @ '' incompleta.''))
                       else
                         (let after_elems = drop total after_sizes;
                              needed = nat (n * (n + 1) div 2)
                          in case find (\<lambda>t. to_float t = None) (take needed after_elems) of
                               Some t \<Rightarrow> Some (ConversionError t)
                             | None \<Rightarrow>
                                 if length after_elems < needed then
                                   Some (ValueError ''Matriz A (triangular superior) incompleta.'')
                                 else None)))"
      using Cons Some by (simp add: spec_parse_outcome_def)
    note rsz = read_sizes_spec[of to_int "nat n" ts]
    show ?thesis
    proof (cases "find (\<lambda>t. to_int t = None) ?zs")
      case bad: (Some t)
      then have "read_sizes to_int (nat n) ts = Inl (ConversionError t)" using rsz by simp
      then have "parse_tokens to_int to_float toks = Inl (ConversionError t)"
        using rn by (simp add: parse_tokens_def ebind_def)
      then show ?thesis unfolding sp0 bad by simp
    next
      case ok: None
      show ?thesis
      proof (cases "length ts < nat n")
        case True
        then have "read_sizes to_int (nat n) ts = Inl (ValueError ''Linha de tamanhos s_i incompleta.'')"
          using rsz ok by simp
        then have "parse_tokens to_int to_float toks = Inl (ValueError ''Linha de tamanhos s_i incompleta.'')"
          using rn by (simp add: parse_tokens_def ebind_def)
        then show ?thesis unfolding sp0 ok using True by simp
      next
        case False
        let ?s = "map (\<lambda>t. the (to_int t)) ?zs"
        let ?t2 = "drop (nat n) ts"
        let ?sizes = "map (\<lambda>t. nat (the (to_int t))) ?zs"
        let ?total = "sum_list ?sizes"
        have rs: "read_sizes to_int (nat n) ts = Inr (?s, ?t2)"
          using rsz ok False by simp
        have sz: "map nat ?s = ?sizes" by (rule sizes_as_nats)
        note sub = read_subsets_spec[where ti=to_int and n=n and needs="?s" and i=0 and toks="?t2",
            unfolded sz]
        have pt: "parse_tokens to_int to_float toks =
            ebind (read_subsets to_int n 0 ?s ?t2) (\<lambda>(subsets, toks3).
               ebind (read_coeffs to_float ?needed toks3) (\<lambda>(coeffs, toks4).
                 ebind (fill_A (index_pairs (nat n)) coeffs 0 []) (\<lambda>A.
                   Inr (n, subsets, A))))"
          using rn rs by (simp add: parse_tokens_def ebind_def)
        have sp: "spec_parse_outcome to_int to_float toks =
            (case find (bad_elem to_int n) (take ?total ?t2) of
               Some t \<Rightarrow> Some (elem_error to_int n t)
             | None \<Rightarrow>
                 if length ?t2 < ?total then
                   Some (ValueError (''Lista de cobertura de S''
                         @ py_str (int (set_index ?sizes (length ?t2)) + 1)
                         @ '' incompleta.''))
                 else
                   (case find (\<lambda>t. to_float t = None) (take ?needed (drop ?total ?t2)) of
                      Some t \<Rightarrow> Some (ConversionError t)
                    | None \<Rightarrow>
                        if length (drop ?total ?t2) < ?needed then
                          Some (ValueError ''Matriz A (triangular superior) incompleta.'')
                        else None))"
          unfolding sp0 ok using False by (simp add: Let_def cong: option.case_cong)
        show ?thesis
        proof (cases "find (bad_elem to_int n) (take ?total ?t2)")
          case (Some t)
          with sub have "read_subsets to_int n 0 ?s ?t2 = Inl (elem_error to_int n t)"
            by simp
          then show ?thesis unfolding pt sp Some by (simp add: ebind_def)
        next
          case None
          show ?thesis
          proof (cases "length ?t2 < ?total")
            case True
            with sub None have "read_subsets to_int n 0 ?s ?t2 =
                Inl (ValueError (''Lista de cobertura de S''
                      @ py_str (int (0 + set_index ?sizes (length ?t2)) + 1)
                      @ '' incompleta.''))"
              by simp
            then show ?thesis unfolding pt sp None using True by (simp add: ebind_def)
          next
            case F2: False
            with sub None obtain S where
              S: "read_subsets to_int n 0 ?s ?t2 = Inr (S, drop ?total ?t2)" by auto
            let ?t3 = "drop ?total ?t2"
            note rc = read_coeffs_spec[of to_float ?needed ?t3]
            show ?thesis
            proof (cases "find (\<lambda>t. to_float t = None) (take ?needed ?t3)")
              case badc: (Some t)
              then have "read_coeffs to_float ?needed ?t3 = Inl (ConversionError t)"
                using rc by simp
              then show ?thesis unfolding pt sp None S badc using F2 by (simp add: ebind_def)
            next
              case okc: None
              show ?thesis
              proof (cases "length ?t3 < ?needed")
                case True
                then have "read_coeffs to_float ?needed ?t3 =
                    Inl (ValueError ''Matriz A (triangular superior) incompleta.'')"
                  using rc okc by simp
                then show ?thesis unfolding pt sp None S okc using True F2
                  by (simp add: ebind_def)
              next
                case F3: False
                let ?coeffs = "map (\<lambda>t. the (to_float t)) (take ?needed ?t3)"
                have c: "read_coeffs to_float ?needed ?t3 = Inr (?coeffs, drop ?needed ?t3)"
                  using rc okc F3 by simp
                have "length ?coeffs = ?needed" using F3 by simp
                then have "0 + length (index_pairs (nat n)) \<le> length ?coeffs"
                  using needed_nat[of n] by simp
                from fill_A_total[OF this] obtain A where
                  A: "fill_A (index_pairs (nat n)) ?coeffs 0 [] = Inr A" by blast
                have "parse_tokens to_int to_float toks = Inr (n, S, A)"
                  unfolding pt S using c A by (simp add: ebind_def)
                then show ?thesis unfolding sp None okc using F2 F3 by simp
              qed
            qed
          qed
        qed
      qed
    qed
  qed
qed

text \<open>
  Claim C4, as amended. \<open>parse_instance\<close> fails, returning the error alone and never a
  partial result, in exactly six situations, the first met in reading order deciding the
  error (\<open>spec_parse_outcome\<close>): the token stream is empty (no \<open>n\<close>); fewer than \<open>n\<close> size
  tokens follow \<open>n\<close>; a covering-set element list ends before its declared size is read;
  an element token read is outside \<open>1..n\<close>; fewer than \<open>n(n+1)/2\<close> coefficient tokens are
  present; or a token that is read is rejected by the conversion applied to it (\<open>int\<close> for
  \<open>n\<close>, the sizes and the elements, \<open>float\<close> for the coefficients). The first five carry
  the message of their section, the sixth the conversion's own error, which names no
  section. In every other case parsing succeeds; tokens after the last coefficient are
  never read. The statement holds for every file and for all conversions.
\<close>

theorem parse_failures:
  "case spec_parse_outcome to_int to_float (token_stream (readlines content)) of
     Some e \<Rightarrow> parse_instance to_int to_float content = Inl e
   | None \<Rightarrow> \<exists>r. parse_instance to_int to_float content = Inr r"
  unfolding parse_instance_def by (rule parse_tokens_outcome)

text \<open>Two sets over \<open>1..2\<close> of declared sizes 1 and 2, and only two element tokens: the
  list of the second set ends early.\<close>

theorem parse_failures_witness:
  "spec_parse_outcome py_int py_float (token_stream (readlines ''2 1 2 2 1''))
     = Some (ValueError ''Lista de cobertura de S2 incompleta.'') \<and>
   parse_instance py_int py_float ''2 1 2 2 1''
     = Inl (ValueError ''Lista de cobertura de S2 incompleta.'')"
proof -
  have s: "spec_parse_outcome py_int py_float (token_stream (readlines ''2 1 2 2 1''))
             = Some (ValueError ''Lista de cobertura de S2 incompleta.'')"
    by code_simp
  from parse_failures [of py_int py_float "''2 1 2 2 1''"] s show ?thesis by simp
qed

text \<open>The other situations, a file that parses, and one that parses with unread tokens
  after its last coefficient, evaluated.\<close>

lemma parse_failure_examples:
  "parse_instance py_int py_float [] = Inl (ValueError ''Arquivo vazio ou n ausente.'')"
  "parse_instance py_int py_float ''3 1 1'' = Inl (ValueError ''Linha de tamanhos s_i incompleta.'')"
  "parse_instance py_int py_float ''2 1 2 2 5''
     = Inl (ValueError ''Elemento 5 fora do universo 1..2.'')"
  "parse_instance py_int py_float ''2 1 1 1 2 7 8''
     = Inl (ValueError ''Matriz A (triangular superior) incompleta.'')"
  "parse_instance py_int py_float ''2 1 x 1 2 7 0 8'' = Inl (ConversionError ''x'')"
  "parse_instance py_int py_float ''2 1 1 1 2 7 0 8''
     = Inr (2, [{0}, {1}], [((0, 0), 7), ((1, 1), 8)])"
  "parse_instance py_int py_float ''2 1 1 1 2 7 0 8 x y''
     = Inr (2, [{0}, {1}], [((0, 0), 7), ((1, 1), 8)])"
  by code_simp+

text \<open>
  The claim as stated, with "exactly" and with a section message for every failure,
  does not hold. In the file below none of its five situations holds: \<open>n = 1\<close> is read,
  one size token follows it, the one element list is complete and its element is in
  range, and one token is present for the one coefficient. Parsing fails all the same,
  with the error that \<open>float\<close> raises on the token \<open>x\<close>.
\<close>

theorem parse_failure_outside_the_list:
  "token_stream (readlines ''1 1 1 x'') = [''1'', ''1'', ''1'', ''x''] \<and>
   read_n py_int [''1'', ''1'', ''1'', ''x''] = Inr (1, [''1'', ''1'', ''x'']) \<and>
   read_sizes py_int (nat 1) [''1'', ''1'', ''x''] = Inr ([1], [''1'', ''x'']) \<and>
   read_subsets py_int 1 0 [1] [''1'', ''x''] = Inr ([{0}], [''x'']) \<and>
   length [''x''] = nat (1 * (1 + 1) div 2) \<and>
   parse_instance py_int py_float ''1 1 1 x'' = Inl (ConversionError ''x'')"
  by code_simp

text \<open>A file of one item and the same file with two more tokens.\<close>

theorem parse_ignores_surplus_witness:
  "parse_instance py_int py_float ''1 1 1 5'' = Inr (1, [{0}], [((0, 0), 5)]) \<and>
   token_stream (readlines ''1 1 1 5 7 junk'')
     = token_stream (readlines ''1 1 1 5'') @ [''7'', ''junk''] \<and>
   parse_instance py_int py_float ''1 1 1 5 7 junk'' = Inr (1, [{0}], [((0, 0), 5)])"
proof -
  have p: "parse_instance py_int py_float ''1 1 1 5'' = Inr (1, [{0}], [((0, 0), 5)])"
    by code_simp
  have t: "token_stream (readlines ''1 1 1 5 7 junk'')
             = token_stream (readlines ''1 1 1 5'') @ [''7'', ''junk'']"
    by code_simp
  from parse_ignores_surplus [OF p t] p t show ?thesis by simp
qed

section \<open>The linear model\<close>


lemma cover_constr_shape:
  "cover_constr n subsets k = Inr c \<Longrightarrow>
     length subsets \<ge> n \<and>
     c_lhs c = quicksum_x (filter (\<lambda>i. int k \<in> subsets ! i) [0..<n]) \<and>
     c_sense c = Ge \<and> c_rhs c = const_expr 1"
  by (auto simp: cover_constr_def Let_def split: if_splits)

lemma cover_constrs_map:
  "cover_constrs n subsets ks = Inr cs \<Longrightarrow>
     length cs = length ks \<and> (\<forall>p<length ks. cover_constr n subsets (ks ! p) = Inr (cs ! p))"
proof (induction ks arbitrary: cs)
  case Nil
  then show ?case by simp
next
  case (Cons k ks)
  from Cons.prems obtain c rest where c: "cover_constr n subsets k = Inr c"
      "cover_constrs n subsets ks = Inr rest" "cs = c # rest"
    by (auto simp: ebind_Inr_iff)
  from Cons.IH[OF c(2)] show ?case using c(1,3) by (simp add: All_less_Suc2)
qed

lemma cover_constrs_total:
  "n \<le> length subsets \<Longrightarrow> \<exists>cs. cover_constrs n subsets ks = Inr cs"
  by (induction ks) (auto simp: ebind_def cover_constr_def Let_def)

lemma cover_no_y:
  assumes "cover_constrs n subsets ks = Inr cs" "c \<in> set cs"
  shows "\<not> mentions c (Y a b)"
proof -
  from assms(2) obtain p where p: "p < length cs" "c = cs ! p" by (auto simp: in_set_conv_nth)
  with cover_constrs_map[OF assms(1)] have "cover_constr n subsets (ks ! p) = Inr c" by simp
  from cover_constr_shape[OF this] show ?thesis
    by (auto simp: mentions_def expr_vars_def quicksum_x_def const_expr_def)
qed

lemma linearizations_set:
  "linearizations n ps = Inr lin \<Longrightarrow>
     (\<forall>p\<in>set ps. \<exists>cs. linearization n p = Inr cs \<and> set cs \<subseteq> set lin) \<and>
     (\<forall>c\<in>set lin. \<exists>p\<in>set ps. \<exists>cs. linearization n p = Inr cs \<and> c \<in> set cs)"
proof (induction ps arbitrary: lin)
  case Nil
  then show ?case by simp
next
  case (Cons p ps)
  from Cons.prems obtain cs rest where c: "linearization n p = Inr cs"
      "linearizations n ps = Inr rest" "lin = cs @ rest"
    by (auto simp: ebind_Inr_iff)
  from Cons.IH[OF c(2)] show ?case using c(1,3) by fastforce
qed

lemma linearization_mentions:
  "linearization n p = Inr cs \<Longrightarrow> c \<in> set cs \<Longrightarrow> mentions c (Y a b) \<Longrightarrow> p = (a, b)"
  by (cases p)
     (auto simp: linearization_def Let_def mentions_def expr_vars_def var_expr_def
           split: if_splits)

lemma linearization_all_mention:
  "linearization n (i, j) = Inr cs \<Longrightarrow> c \<in> set cs \<Longrightarrow> mentions c (Y i j)"
  by (auto simp: linearization_def Let_def mentions_def expr_vars_def var_expr_def
           split: if_splits)

lemma linearization_exact:
  assumes "linearization n (i, j) = Inr cs"
    and "\<sigma> (X i) = 0 \<or> \<sigma> (X i) = 1" and "\<sigma> (X j) = 0 \<or> \<sigma> (X j) = 1"
  shows "((\<forall>c\<in>set cs. sat \<sigma> c) \<and> 0 \<le> \<sigma> (Y i j) \<and> \<sigma> (Y i j) \<le> 1)
           \<longleftrightarrow> \<sigma> (Y i j) = \<sigma> (X i) * \<sigma> (X j)"
proof (cases "i = j")
  case True
  with assms(1) have cs: "cs = [\<lparr>c_lhs = var_expr (Y i i), c_sense = Eq, c_rhs = var_expr (X i),
                 c_name = ''diag['' @ py_str (int i) @ '']''\<rparr>]"
    by (auto simp: linearization_def Let_def split: if_splits)
  show ?thesis using assms(2) True unfolding cs
    by (auto simp: sat_def eval_expr_def var_expr_def)
next
  case False
  with assms(1) have cs: "cs = [\<lparr>c_lhs = var_expr (Y i j), c_sense = Le, c_rhs = var_expr (X i),
                 c_name = ''mc1['' @ py_str (int i) @ '','' @ py_str (int j) @ '']''\<rparr>,
                \<lparr>c_lhs = var_expr (Y i j), c_sense = Le, c_rhs = var_expr (X j),
                 c_name = ''mc2['' @ py_str (int i) @ '','' @ py_str (int j) @ '']''\<rparr>,
                \<lparr>c_lhs = var_expr (Y i j), c_sense = Ge,
                 c_rhs = \<lparr>le_terms = [(1, X i), (1, X j)], le_const = - 1\<rparr>,
                 c_name = ''mc3['' @ py_str (int i) @ '','' @ py_str (int j) @ '']''\<rparr>]"
    by (auto simp: linearization_def Let_def split: if_splits)
  show ?thesis using assms(2,3) unfolding cs
    by (auto simp: sat_def eval_expr_def var_expr_def)
qed

lemma build_model_parts:
  assumes "build_and_solve_model n subsets A = Inr M"
  shows "\<exists>cover lin. cover_constrs (nat n) subsets [0..<nat n] = Inr cover \<and>
           linearizations (nat n) (map fst A) = Inr lin \<and>
           m_vars M = map x_decl [0..<nat n] @ map (\<lambda>(p, aij). y_decl p) A \<and>
           m_constrs M = cover @ lin"
  using assms by (auto simp: build_and_solve_model_def Let_def ebind_Inr_iff)

text \<open>
  Claim C1. In the model that \<open>build_and_solve\<close> builds, take a pair \<open>(i, j)\<close> with a
  stored coefficient and any assignment in which \<open>x[i]\<close> and \<open>x[j]\<close> are 0 or 1. Among
  all values \<open>v\<close> for \<open>y[i][j]\<close>, the bounds of the variable and the constraints in
  which it occurs (the equality for \<open>i = j\<close>, the three McCormick inequalities
  otherwise) hold for exactly one: the product \<open>x[i] * x[j]\<close>. The parser stores
  only pairs with \<open>i \<le> j\<close>; the statement holds for every stored pair.
\<close>

theorem mccormick_exact:
  assumes "build_and_solve_model n subsets A = Inr M"
    and "(i, j) \<in> fst ` set A"
    and "\<sigma> (X i) = 0 \<or> \<sigma> (X i) = 1" and "\<sigma> (X j) = 0 \<or> \<sigma> (X j) = 1"
  shows "{v. holds_for M (Y i j) (\<sigma>(Y i j := v))} = {\<sigma> (X i) * \<sigma> (X j)}"
proof -
  from build_model_parts[OF assms(1)] obtain cover lin where
    parts: "cover_constrs (nat n) subsets [0..<nat n] = Inr cover"
      "linearizations (nat n) (map fst A) = Inr lin"
      "m_vars M = map x_decl [0..<nat n] @ map (\<lambda>(p, aij). y_decl p) A"
      "m_constrs M = cover @ lin" by blast
  have key: "(i, j) \<in> set (map fst A)" using assms(2) by simp
  from linearizations_set[OF parts(2)] key obtain cs where
    cs: "linearization (nat n) (i, j) = Inr cs" "set cs \<subseteq> set lin" by blast
  have "holds_for M (Y i j) \<tau> \<longleftrightarrow>
          (\<forall>c\<in>set cs. sat \<tau> c) \<and> 0 \<le> \<tau> (Y i j) \<and> \<tau> (Y i j) \<le> 1" for \<tau>
  proof -
    have decl: "(\<forall>d \<in> set (m_vars M). vd_var d = Y i j \<longrightarrow> obeys \<tau> d)
                 \<longleftrightarrow> 0 \<le> \<tau> (Y i j) \<and> \<tau> (Y i j) \<le> 1"
    proof
      assume a: "\<forall>d \<in> set (m_vars M). vd_var d = Y i j \<longrightarrow> obeys \<tau> d"
      from assms(2) obtain aij where "((i, j), aij) \<in> set A" by auto
      then have "y_decl (i, j) \<in> set (m_vars M)" unfolding parts(3) by force
      with a have "obeys \<tau> (y_decl (i, j))" by (simp add: y_decl_def)
      then show "0 \<le> \<tau> (Y i j) \<and> \<tau> (Y i j) \<le> 1" by (simp add: obeys_def y_decl_def)
    next
      assume b: "0 \<le> \<tau> (Y i j) \<and> \<tau> (Y i j) \<le> 1"
      show "\<forall>d \<in> set (m_vars M). vd_var d = Y i j \<longrightarrow> obeys \<tau> d"
        unfolding parts(3) using b by (auto simp: x_decl_def y_decl_def obeys_def)
    qed
    have con: "(\<forall>c \<in> set (m_constrs M). mentions c (Y i j) \<longrightarrow> sat \<tau> c)
                 \<longleftrightarrow> (\<forall>c\<in>set cs. sat \<tau> c)"
    proof
      assume a: "\<forall>c \<in> set (m_constrs M). mentions c (Y i j) \<longrightarrow> sat \<tau> c"
      show "\<forall>c\<in>set cs. sat \<tau> c"
      proof
        fix c assume c: "c \<in> set cs"
        then have "c \<in> set (m_constrs M)" using cs(2) parts(4) by auto
        moreover have "mentions c (Y i j)" using linearization_all_mention[OF cs(1) c] .
        ultimately show "sat \<tau> c" using a by blast
      qed
    next
      assume b: "\<forall>c\<in>set cs. sat \<tau> c"
      show "\<forall>c \<in> set (m_constrs M). mentions c (Y i j) \<longrightarrow> sat \<tau> c"
      proof (intro ballI impI)
        fix c assume c: "c \<in> set (m_constrs M)" and m: "mentions c (Y i j)"
        from c parts(4) consider "c \<in> set cover" | "c \<in> set lin" by auto
        then show "sat \<tau> c"
        proof cases
          case 1
          then show ?thesis using cover_no_y[OF parts(1)] m by blast
        next
          case 2
          with linearizations_set[OF parts(2)] obtain p cs' where
            p: "linearization (nat n) p = Inr cs'" "c \<in> set cs'" by blast
          from linearization_mentions[OF p m] have "p = (i, j)" .
          with p cs(1) have "c \<in> set cs" by simp
          with b show ?thesis by blast
        qed
      qed
    qed
    show ?thesis unfolding holds_for_def decl con by blast
  qed
  then have "holds_for M (Y i j) (\<sigma>(Y i j := v)) \<longleftrightarrow> v = \<sigma> (X i) * \<sigma> (X j)" for v
    using linearization_exact[OF cs(1), of "\<sigma>(Y i j := v)"] assms(3,4) by simp
  then show ?thesis by auto
qed

lemma u2: "[0..<nat 2] = [0, Suc 0]" by (simp add: upt_conv_Cons nat_numeral)

lemma demo_build: "\<exists>M. build_and_solve_model 2 [{0, 1}, {1}] demo_A = Inr M"
  by (simp add: build_and_solve_model_def Let_def ebind_def demo_A_def
      cover_constr_def linearization_def upt_conv_Cons)

text \<open>Two items, stored coefficients at \<open>(0, 0)\<close> and \<open>(0, 1)\<close>, \<open>x[0] = 1\<close> and
  \<open>x[1] = 0\<close>: the only value left for \<open>y[0][1]\<close> is \<open>0\<close>.\<close>

theorem mccormick_exact_witness:
  "((0::nat, 1::nat) \<in> fst ` set demo_A) \<and>
   (demo_sigma (X 0) = 0 \<or> demo_sigma (X 0) = 1) \<and>
   (demo_sigma (X 1) = 0 \<or> demo_sigma (X 1) = 1) \<and>
   (\<exists>M. build_and_solve_model 2 [{0, 1}, {1}] demo_A = Inr M \<and>
        {v. holds_for M (Y 0 1) (demo_sigma(Y 0 1 := v))} = {0})"
proof -
  obtain M where M: "build_and_solve_model 2 [{0, 1}, {1}] demo_A = Inr M"
    using demo_build by blast
  have k: "(0::nat, 1::nat) \<in> fst ` set demo_A" by (simp add: demo_A_def)
  have b0: "demo_sigma (X 0) = 0 \<or> demo_sigma (X 0) = 1" by (simp add: demo_sigma_def)
  have b1: "demo_sigma (X 1) = 0 \<or> demo_sigma (X 1) = 1" by (simp add: demo_sigma_def)
  have "{v. holds_for M (Y 0 1) (demo_sigma(Y 0 1 := v))} = {demo_sigma (X 0) * demo_sigma (X 1)}"
    by (rule mccormick_exact [OF M k b0 b1])
  then have "{v. holds_for M (Y 0 1) (demo_sigma(Y 0 1 := v))} = {0}"
    by (simp add: demo_sigma_def)
  with M k b0 b1 show ?thesis by blast
qed

lemma binary_sum_ge_1:
  fixes f :: "nat \<Rightarrow> real"
  assumes "\<forall>i\<in>set xs. f i = 0 \<or> f i = 1"
  shows "sum_list (map f xs) \<ge> 1 \<longleftrightarrow> (\<exists>i\<in>set xs. f i = 1)"
proof -
  have nonneg: "0 \<le> sum_list (map f ys)" if "\<forall>i\<in>set ys. f i = 0 \<or> f i = 1" for ys
    using that by (induction ys) auto
  show ?thesis using assms
  proof (induction xs)
    case Nil
    then show ?case by simp
  next
    case (Cons x xs)
    then have ih: "sum_list (map f xs) \<ge> 1 \<longleftrightarrow> (\<exists>i\<in>set xs. f i = 1)" by simp
    have nn: "0 \<le> sum_list (map f xs)" using nonneg Cons.prems by simp
    from Cons.prems have "f x = 0 \<or> f x = 1" by simp
    then show ?case
    proof
      assume "f x = 0" then show ?thesis using ih by simp
    next
      assume "f x = 1" then show ?thesis using nn by simp
    qed
  qed
qed

lemma cover_constrs_eq:
  "cover_constrs n subsets ks = Inr cs \<Longrightarrow>
     cs = map (\<lambda>k. \<lparr>c_lhs = quicksum_x (filter (\<lambda>i. int k \<in> subsets ! i) [0..<n]),
                     c_sense = Ge, c_rhs = const_expr 1,
                     c_name = ''cover['' @ py_str (int k) @ '']''\<rparr>) ks"
proof (induction ks arbitrary: cs)
  case Nil
  then show ?case by simp
next
  case (Cons k ks)
  from Cons.prems obtain c rest where c: "cover_constr n subsets k = Inr c"
      "cover_constrs n subsets ks = Inr rest" "cs = c # rest"
    by (auto simp: ebind_Inr_iff)
  from c(1) have "c = \<lparr>c_lhs = quicksum_x (filter (\<lambda>i. int k \<in> subsets ! i) [0..<n]),
                     c_sense = Ge, c_rhs = const_expr 1,
                     c_name = ''cover['' @ py_str (int k) @ '']''\<rparr>"
    by (auto simp: cover_constr_def Let_def split: if_splits)
  with Cons.IH[OF c(2)] c(3) show ?case by simp
qed

lemma linearization_names:
  "linearization n p = Inr cs \<Longrightarrow> c \<in> set cs \<Longrightarrow> take 6 (c_name c) \<noteq> ''cover[''"
  by (auto simp: linearization_def Let_def split: if_splits)

lemma cover_part_eq:
  assumes "build_and_solve_model n subsets A = Inr M"
  shows "cover_part M =
           map (\<lambda>k. \<lparr>c_lhs = quicksum_x (filter (\<lambda>i. int k \<in> subsets ! i) [0..<nat n]),
                     c_sense = Ge, c_rhs = const_expr 1,
                     c_name = ''cover['' @ py_str (int k) @ '']''\<rparr>) [0..<nat n]"
proof -
  from build_model_parts[OF assms] obtain cover lin where
    parts: "cover_constrs (nat n) subsets [0..<nat n] = Inr cover"
      "linearizations (nat n) (map fst A) = Inr lin"
      "m_constrs M = cover @ lin" by blast
  note cv = cover_constrs_eq[OF parts(1)]
  have "filter (\<lambda>c. take 6 (c_name c) = ''cover['') lin = []"
    using linearizations_set[OF parts(2)] linearization_names by (fastforce simp: filter_empty_conv)
  moreover have "filter (\<lambda>c. take 6 (c_name c) = ''cover['') cover = cover"
    by (subst cv, subst cv) (simp add: filter_map o_def)
  ultimately show ?thesis unfolding cover_part_def parts(3) using cv by simp
qed

text \<open>
  Claim C5. The cover constraints of the model built for \<open>(n, subsets, A)\<close> are, for each
  element \<open>k\<close> of \<open>range(n)\<close> (the parser's 0-based form of \<open>1..n\<close>), the constraint
  that the sum of \<open>x[i]\<close> over the indices \<open>i\<close> whose covering set holds \<open>k\<close> is at least
  1, and nothing else. An assignment with every \<open>x[i]\<close> in \<open>{0, 1}\<close> satisfies them
  all if and only if every element is in the covering set of a selected item.
\<close>

theorem cover_constraints_encode_set_cover:
  assumes "build_and_solve_model n subsets A = Inr M" and "binary_x (nat n) \<sigma>"
  shows "cover_part M =
           map (\<lambda>k. \<lparr>c_lhs = quicksum_x (filter (\<lambda>i. int k \<in> subsets ! i) [0..<nat n]),
                     c_sense = Ge, c_rhs = const_expr 1,
                     c_name = ''cover['' @ py_str (int k) @ '']''\<rparr>) [0..<nat n] \<and>
         ((\<forall>c\<in>set (cover_part M). sat \<sigma> c) \<longleftrightarrow>
          (\<forall>k<nat n. \<exists>i<nat n. \<sigma> (X i) = 1 \<and> int k \<in> subsets ! i))"
proof -
  note cp = cover_part_eq[OF assms(1)]
  have one: "sat \<sigma> \<lparr>c_lhs = quicksum_x (filter (\<lambda>i. int k \<in> subsets ! i) [0..<nat n]),
                     c_sense = Ge, c_rhs = const_expr 1,
                     c_name = ''cover['' @ py_str (int k) @ '']''\<rparr>
        \<longleftrightarrow> (\<exists>i<nat n. \<sigma> (X i) = 1 \<and> int k \<in> subsets ! i)" for k
  proof -
    let ?cov = "filter (\<lambda>i. int k \<in> subsets ! i) [0..<nat n]"
    have "\<forall>i\<in>set ?cov. \<sigma> (X i) = 0 \<or> \<sigma> (X i) = 1"
      using assms(2) by (simp add: binary_x_def)
    from binary_sum_ge_1[OF this] show ?thesis
      by (auto simp: sat_def eval_expr_def quicksum_x_def const_expr_def o_def)
  qed
  have "(\<forall>c\<in>set (cover_part M). sat \<sigma> c) \<longleftrightarrow>
          (\<forall>k<nat n. \<exists>i<nat n. \<sigma> (X i) = 1 \<and> int k \<in> subsets ! i)"
    unfolding cp using one by (auto simp: atLeast0LessThan)
  with cp show ?thesis by blast
qed

text \<open>Two items, covering sets \<open>{0, 1}\<close> and \<open>{1}\<close> (0-based), the first item selected:
  both elements are covered, and both cover constraints hold.\<close>

theorem cover_constraints_encode_set_cover_witness:
  "binary_x (nat 2) demo_sigma \<and>
   (\<exists>M. build_and_solve_model 2 [{0, 1}, {1}] demo_A = Inr M \<and>
        length (cover_part M) = 2 \<and>
        list_all (sat demo_sigma) (cover_part M) \<and>
        list_all (\<lambda>k. list_ex (\<lambda>i. demo_sigma (X i) = 1 \<and> int k \<in> [{0, 1}, {1}] ! i) [0, 1]) [0, 1])"
proof -
  obtain M where M: "build_and_solve_model 2 [{0, 1}, {1}] demo_A = Inr M"
    using demo_build by blast
  have b: "binary_x (nat 2) demo_sigma" by (simp add: binary_x_def demo_sigma_def)
  note t = cover_constraints_encode_set_cover [OF M b]
  have len: "length (cover_part M) = 2" using t by simp
  have cov: "\<forall>k<nat 2. \<exists>i<nat 2. demo_sigma (X i) = 1 \<and> int k \<in> [{0, 1}, {1}] ! i"
  proof (intro allI impI)
    fix k :: nat assume "k < nat 2"
    then have "k = 0 \<or> k = 1" by auto
    then have "demo_sigma (X 0) = 1 \<and> int k \<in> [{0, 1}, {1}] ! 0"
      by (auto simp: demo_sigma_def)
    then show "\<exists>i<nat 2. demo_sigma (X i) = 1 \<and> int k \<in> [{0, 1}, {1}] ! i" by force
  qed
  with t have "\<forall>c\<in>set (cover_part M). sat demo_sigma c" by blast
  then have sat: "list_all (sat demo_sigma) (cover_part M)" by (simp add: list_all_iff)
  have ex: "list_all (\<lambda>k. list_ex (\<lambda>i. demo_sigma (X i) = 1 \<and> int k \<in> [{0, 1}, {1}] ! i) [0, 1]) [0, 1]"
    by (simp add: demo_sigma_def)
  from M b len sat ex show ?thesis by blast
qed

section \<open>The product variables\<close>

lemma update_fresh: "k \<notin> fst ` set al \<Longrightarrow> AList.update k v al = al @ [(k, v)]"
  by (induction al) auto

lemma fill_A_eq:
  "distinct ps \<Longrightarrow> set ps \<inter> fst ` set A = {} \<Longrightarrow> idx + length ps \<le> length coeffs \<Longrightarrow>
   fill_A ps coeffs idx A = Inr (A @ filter (\<lambda>(p, a). a \<noteq> 0) (zip ps (drop idx coeffs)))"
proof (induction ps arbitrary: idx A)
  case Nil
  then show ?case by simp
next
  case (Cons p ps)
  have lt: "idx < length coeffs" using Cons.prems(3) by simp
  then have d: "drop idx coeffs = coeffs ! idx # drop (Suc idx) coeffs"
    by (simp add: Cons_nth_drop_Suc)
  let ?a = "coeffs ! idx"
  let ?A' = "if ?a \<noteq> 0 then AList.update p ?a A else A"
  have fresh: "p \<notin> fst ` set A" using Cons.prems(2) by auto
  have A': "?A' = A @ filter (\<lambda>(p, a). a \<noteq> 0) [(p, ?a)]"
    using update_fresh[OF fresh] by simp
  have dis: "set ps \<inter> fst ` set ?A' = {}" using Cons.prems(1,2) by (auto simp: A')
  have "fill_A (p # ps) coeffs idx A = fill_A ps coeffs (Suc idx) ?A'"
    using lt by (simp add: Let_def)
  also have "\<dots> = Inr (?A' @ filter (\<lambda>(p, a). a \<noteq> 0) (zip ps (drop (Suc idx) coeffs)))"
    using Cons.IH[OF _ dis, of "Suc idx"] Cons.prems(1,3) by simp
  also have "\<dots> = Inr (A @ filter (\<lambda>(p, a). a \<noteq> 0) (zip (p # ps) (drop idx coeffs)))"
    unfolding d A' by simp
  finally show ?case .
qed

lemma distinct_tagged_rows:
  "distinct js \<Longrightarrow> (\<forall>i\<in>set js. distinct (g i)) \<Longrightarrow>
   distinct (concat (map (\<lambda>i. map (\<lambda>j. (i, j)) (g i)) js))"
proof (induction js)
  case Nil
  then show ?case by simp
next
  case (Cons i js)
  have "distinct (map (\<lambda>j. (i, j)) (g i))" using Cons.prems(2) by (simp add: distinct_map inj_on_def)
  moreover have "distinct (concat (map (\<lambda>i. map (\<lambda>j. (i, j)) (g i)) js))"
    using Cons by simp
  moreover have "set (map (\<lambda>j. (i, j)) (g i)) \<inter> set (concat (map (\<lambda>i. map (\<lambda>j. (i, j)) (g i)) js)) = {}"
    using Cons.prems(1) by auto
  ultimately show ?case by simp
qed

lemma distinct_index_pairs: "distinct (index_pairs n)"
  unfolding index_pairs_def by (rule distinct_tagged_rows) simp_all

lemma set_index_pairs: "set (index_pairs n) = {(i, j). i \<le> j \<and> j < n}"
proof -
  have "(a, b) \<in> set (index_pairs n) \<longleftrightarrow> a \<le> b \<and> b < n" for a b
  proof
    assume "(a, b) \<in> set (index_pairs n)"
    then show "a \<le> b \<and> b < n" by (auto simp: index_pairs_def)
  next
    assume "a \<le> b \<and> b < n"
    then have "a \<in> set [0..<n]" "(a, b) \<in> set (map (\<lambda>j. (a, j)) [a..<n])" by auto
    then show "(a, b) \<in> set (index_pairs n)" unfolding index_pairs_def set_concat by force
  qed
  then show ?thesis by auto
qed

lemma fill_A_index_pairs:
  assumes "length (index_pairs n) \<le> length coeffs"
  shows "fill_A (index_pairs n) coeffs 0 [] =
           Inr (filter (\<lambda>(p, a). a \<noteq> 0) (zip (index_pairs n) coeffs))"
  using fill_A_eq[OF distinct_index_pairs, of n "[]" 0 coeffs] assms by simp

lemma read_sizes_length:
  "read_sizes ti m toks = Inr (vs, rest) \<Longrightarrow> length vs = m"
proof (induction ti m toks arbitrary: vs rest rule: read_sizes.induct)
  case (3 ti m t ts)
  from "3.prems" obtain v where v: "ti t = Some v" by (auto split: option.splits)
  with "3.prems" obtain vs' where r: "read_sizes ti m ts = Inr (vs', rest)" "vs = v # vs'"
    by (auto simp: ebind_Inr_iff)
  from "3.IH"[OF v r(1)] r(2) show ?case by simp
qed simp_all

lemma read_coeffs_length:
  "read_coeffs tf m toks = Inr (vs, rest) \<Longrightarrow> length vs = m"
proof (induction tf m toks arbitrary: vs rest rule: read_coeffs.induct)
  case (3 tf m t ts)
  from "3.prems" obtain v where v: "tf t = Some v" by (auto split: option.splits)
  with "3.prems" obtain vs' where r: "read_coeffs tf m ts = Inr (vs', rest)" "vs = v # vs'"
    by (auto simp: ebind_Inr_iff)
  from "3.IH"[OF v r(1)] r(2) show ?case by simp
qed simp_all

lemma read_subsets_length:
  "read_subsets ti n i sizes toks = Inr (S, rest) \<Longrightarrow> length S = length sizes"
proof (induction sizes arbitrary: i toks S rest)
  case Nil
  then show ?case by simp
next
  case (Cons need sizes)
  from Cons.prems obtain s r1 S' where
    a: "read_subsets ti n (Suc i) sizes r1 = Inr (S', rest)" "S = s # S'"
    by (auto simp: ebind_Inr_iff)
  from Cons.IH[OF a(1)] a(2) show ?case by simp
qed

lemma parse_tokens_parts:
  assumes "parse_tokens ti tf toks = Inr (n, subsets, A)"
  shows "\<exists>coeffs. parse_coeffs ti tf toks = Inr coeffs \<and>
           length coeffs = nat (n * (n + 1) div 2) \<and>
           length subsets = nat n \<and>
           A = filter (\<lambda>(p, a). a \<noteq> 0) (zip (index_pairs (nat n)) coeffs)"
proof -
  from assms obtain t1 s t2 t3 coeffs t4 where
    a: "read_n ti toks = Inr (n, t1)"
       "read_sizes ti (nat n) t1 = Inr (s, t2)"
       "read_subsets ti n 0 s t2 = Inr (subsets, t3)"
       "read_coeffs tf (nat (n * (n + 1) div 2)) t3 = Inr (coeffs, t4)"
       "fill_A (index_pairs (nat n)) coeffs 0 [] = Inr A"
    unfolding parse_tokens_def by (auto simp: ebind_Inr_iff)
  have pc: "parse_coeffs ti tf toks = Inr coeffs"
    unfolding parse_coeffs_def using a(1-4) by (simp add: ebind_def)
  have lc: "length coeffs = nat (n * (n + 1) div 2)" using read_coeffs_length[OF a(4)] .
  have ls: "length subsets = nat n"
    using read_subsets_length[OF a(3)] read_sizes_length[OF a(2)] by simp
  have "length (index_pairs (nat n)) \<le> length coeffs" using needed_nat[of n] lc by simp
  from fill_A_index_pairs[OF this] a(5)
  have "A = filter (\<lambda>(p, a). a \<noteq> 0) (zip (index_pairs (nat n)) coeffs)" by simp
  with pc lc ls show ?thesis by blast
qed

lemma linearizations_total:
  "\<forall>p\<in>set ps. fst p < n \<and> snd p < n \<Longrightarrow> \<exists>lin. linearizations n ps = Inr lin"
proof (induction ps)
  case Nil
  then show ?case by simp
next
  case (Cons p ps)
  then obtain lin where "linearizations n ps = Inr lin" by auto
  moreover have "\<exists>cs. linearization n p = Inr cs"
    using Cons.prems by (simp add: linearization_def Let_def)
  ultimately show ?case by (auto simp: ebind_def)
qed

lemma y_keys_build:
  assumes "build_and_solve_model n subsets A = Inr M"
  shows "y_keys M = map fst A"
proof -
  from build_model_parts[OF assms] have
    v: "m_vars M = map x_decl [0..<nat n] @ map (\<lambda>(p, aij). y_decl p) A" by blast
  let ?f = "\<lambda>d. case vd_var d of Y i j \<Rightarrow> [(i, j)] | X i \<Rightarrow> []"
  have a: "concat (map ?f (map x_decl xs)) = []" for xs
    by (induction xs) (simp_all add: x_decl_def)
  have b: "concat (map ?f (map (\<lambda>(p, aij). y_decl p) B)) = map fst B"
    for B :: "((nat \<times> nat) \<times> real) list"
    by (induction B) (auto simp: y_decl_def)
  show ?thesis unfolding y_keys_def v map_append concat_append a b by simp
qed

lemma y_decls_build:
  assumes "build_and_solve_model n subsets A = Inr M" "d \<in> set (m_vars M)" "vd_var d = Y i j"
  shows "vd_lb d = 0 \<and> vd_ub d = 1 \<and> vd_type d = Continuous"
proof -
  from build_model_parts[OF assms(1)] have
    v: "m_vars M = map x_decl [0..<nat n] @ map (\<lambda>(p, aij). y_decl p) A" by blast
  from assms(2,3) show ?thesis unfolding v by (auto simp: x_decl_def y_decl_def)
qed

text \<open>
  Claim C6. For a file that parses to \<open>(n, subsets, A)\<close>, the model is built without
  error, and its product variables are, in order and without repetition, the keys of
  \<open>A\<close>. These are exactly the pairs \<open>(i, j)\<close> with \<open>i \<le> j < n\<close> whose coefficient in
  the file is not zero: every such pair has a coefficient, \<open>A\<close> stores the nonzero ones
  with their value, and every \<open>y\<close> variable is continuous with bounds 0 and 1.
\<close>

theorem product_variables:
  assumes "parse_instance to_int to_float content = Inr (n, subsets, A)"
  shows "\<exists>coeffs M.
           parse_coeffs to_int to_float (token_stream (readlines content)) = Inr coeffs \<and>
           build_and_solve_model n subsets A = Inr M \<and>
           y_keys M = map fst A \<and> distinct (y_keys M) \<and>
           set (y_keys M) =
             {(i, j). i \<le> j \<and> j < nat n \<and> (\<exists>a. coeff_at (nat n) coeffs (i, j) = Some a \<and> a \<noteq> 0)} \<and>
           (\<forall>i j. i \<le> j \<and> j < nat n \<longrightarrow> coeff_at (nat n) coeffs (i, j) \<noteq> None) \<and>
           (\<forall>p a. (p, a) \<in> set A \<longrightarrow> a \<noteq> 0 \<and> coeff_at (nat n) coeffs p = Some a) \<and>
           (\<forall>d\<in>set (m_vars M). \<forall>i j. vd_var d = Y i j \<longrightarrow>
              vd_lb d = 0 \<and> vd_ub d = 1 \<and> vd_type d = Continuous)"
proof -
  let ?toks = "token_stream (readlines content)"
  let ?ps = "index_pairs (nat n)"
  from assms have "parse_tokens to_int to_float ?toks = Inr (n, subsets, A)"
    by (simp add: parse_instance_def)
  from parse_tokens_parts[OF this] obtain coeffs where
    c: "parse_coeffs to_int to_float ?toks = Inr coeffs"
       "length coeffs = nat (n * (n + 1) div 2)" "length subsets = nat n"
       "A = filter (\<lambda>(p, a). a \<noteq> 0) (zip ?ps coeffs)" by blast
  let ?z = "zip ?ps coeffs"
  have len: "length ?ps \<le> length coeffs" using needed_nat[of n] c(2) by simp
  then have mz: "map fst ?z = ?ps" by (simp add: map_fst_zip_take)
  have dz: "distinct (map fst ?z)" unfolding mz by (rule distinct_index_pairs)
  have mem: "(p, a) \<in> set ?z \<longleftrightarrow> coeff_at (nat n) coeffs p = Some a" for p a
    unfolding coeff_at_def using dz by simp
  have keys: "p \<in> set (map fst A) \<longleftrightarrow>
        (\<exists>a. coeff_at (nat n) coeffs p = Some a \<and> a \<noteq> 0)" for p
  proof -
    have "p \<in> set (map fst (filter (\<lambda>(p, a). a \<noteq> 0) ?z)) \<longleftrightarrow>
            (\<exists>a. (p, a) \<in> set ?z \<and> a \<noteq> 0)" by force
    then show ?thesis unfolding c(4) mem .
  qed
  have inps: "coeff_at (nat n) coeffs p \<noteq> None \<longleftrightarrow> p \<in> set ?ps" for p
    unfolding coeff_at_def using mz by (metis map_of_eq_None_iff set_map)
  have sub: "set (map fst A) \<subseteq> set ?ps"
    unfolding c(4) using mz by (auto dest: set_zip_leftD)
  then have bound: "\<forall>p\<in>set (map fst A). fst p < nat n \<and> snd p < nat n"
    unfolding set_index_pairs by auto
  from cover_constrs_total[of "nat n" subsets "[0..<nat n]"] c(3) obtain cover where
    cover: "cover_constrs (nat n) subsets [0..<nat n] = Inr cover" by auto
  from linearizations_total[OF bound] obtain lin where
    lin: "linearizations (nat n) (map fst A) = Inr lin" by blast
  obtain M where M: "build_and_solve_model n subsets A = Inr M"
    unfolding build_and_solve_model_def using cover lin by (simp add: Let_def ebind_def)
  have yk: "y_keys M = map fst A" by (rule y_keys_build[OF M])
  have dist: "distinct (y_keys M)"
    unfolding yk c(4) using dz by (simp add: distinct_map_filter)
  have set_eq: "set (y_keys M) =
      {(i, j). i \<le> j \<and> j < nat n \<and> (\<exists>a. coeff_at (nat n) coeffs (i, j) = Some a \<and> a \<noteq> 0)}"
  proof -
    have "p \<in> set (y_keys M) \<longleftrightarrow>
        p \<in> {(i, j). i \<le> j \<and> j < nat n \<and> (\<exists>a. coeff_at (nat n) coeffs (i, j) = Some a \<and> a \<noteq> 0)}"
      for p
    proof (cases p)
      case (Pair i j)
      have "p \<in> set (map fst A) \<Longrightarrow> i \<le> j \<and> j < nat n"
        using sub Pair unfolding set_index_pairs by auto
      then show ?thesis unfolding yk using keys[of p] Pair by auto
    qed
    then show ?thesis by blast
  qed
  have every: "\<forall>i j. i \<le> j \<and> j < nat n \<longrightarrow> coeff_at (nat n) coeffs (i, j) \<noteq> None"
    using inps unfolding set_index_pairs by auto
  have stored: "\<forall>p a. (p, a) \<in> set A \<longrightarrow> a \<noteq> 0 \<and> coeff_at (nat n) coeffs p = Some a"
    unfolding c(4) using mem by auto
  have decl: "\<forall>d\<in>set (m_vars M). \<forall>i j. vd_var d = Y i j \<longrightarrow>
              vd_lb d = 0 \<and> vd_ub d = 1 \<and> vd_type d = Continuous"
    using y_decls_build[OF M] by blast
  from c(1) M yk dist set_eq every stored decl show ?thesis by blast
qed

text \<open>Two items with coefficients 7, 0 and 8: the pair \<open>(0, 1)\<close> has a zero coefficient
  and gets no variable.\<close>

theorem product_variables_witness:
  "parse_instance py_int py_float ''2 1 1 1 2 7 0 8''
     = Inr (2, [{0}, {1}], [((0, 0), 7), ((1, 1), 8)]) \<and>
   parse_coeffs py_int py_float (token_stream (readlines ''2 1 1 1 2 7 0 8'')) = Inr [7, 0, 8] \<and>
   coeff_at 2 [7, 0, 8] (0, 1) = Some 0 \<and>
   (\<exists>M. build_and_solve_model 2 [{0}, {1}] [((0, 0), 7), ((1, 1), 8)] = Inr M \<and>
        y_keys M = [(0, 0), (1, 1)])"
proof -
  have p: "parse_instance py_int py_float ''2 1 1 1 2 7 0 8''
             = Inr (2, [{0}, {1}], [((0, 0), 7), ((1, 1), 8)])"
    by code_simp
  have c: "parse_coeffs py_int py_float (token_stream (readlines ''2 1 1 1 2 7 0 8''))
             = Inr [7, 0, 8]"
    by code_simp
  have z: "coeff_at 2 [7, 0, 8] (0, 1) = Some 0"
    by code_simp
  from product_variables [OF p]
  have "\<exists>M. build_and_solve_model 2 [{0}, {1}] [((0, 0), 7), ((1, 1), 8)] = Inr M \<and>
        y_keys M = map fst [((0, 0), 7 :: real), ((1, 1), 8)]"
    by (elim exE conjE) (intro exI conjI; assumption)
  then have "\<exists>M. build_and_solve_model 2 [{0}, {1}] [((0, 0), 7), ((1, 1), 8)] = Inr M \<and>
        y_keys M = [(0, 0), (1, 1)]" by simp
  with p c z show ?thesis by (intro conjI)
qed

section \<open>Writing and reading back\<close>

subsection \<open>Decimal text of an integer\<close>

lemma of_char_digit: "d < 10 \<Longrightarrow> (of_char (digit_char d) :: nat) = 48 + d"
  by (simp add: digit_char_def)

lemma digit_val_digit_char: "d < 10 \<Longrightarrow> digit_val (digit_char d) = Some d"
  by (simp add: digit_val_def of_char_digit)

lemma digit_char_not_space: "d < 10 \<Longrightarrow> \<not> is_space (digit_char d)"
  by (simp add: is_space_def of_char_digit)

lemma digit_char_not_minus:
  assumes "d < 10" shows "digit_char d \<noteq> CHR ''-''"
proof
  assume "digit_char d = CHR ''-''"
  then have "(of_char (digit_char d) :: nat) = of_char (CHR ''-'')" by simp
  then show False using of_char_digit[OF assms] by simp
qed

lemma digit_char_not_plus:
  assumes "d < 10" shows "digit_char d \<noteq> CHR ''+''"
proof
  assume "digit_char d = CHR ''+''"
  then have "(of_char (digit_char d) :: nat) = of_char (CHR ''+'')" by simp
  then show False using of_char_digit[OF assms] by simp
qed

lemma digits_chars: "c \<in> set (digits m) \<Longrightarrow> \<exists>d<10. c = digit_char d"
proof (induction m rule: digits.induct)
  case (1 m)
  show ?case
  proof (cases "m < 10")
    case True
    with "1.prems" show ?thesis by (subst (asm) digits.simps) auto
  next
    case False
    with "1.prems" have "c \<in> set (digits (m div 10)) \<or> c = digit_char (m mod 10)"
      by (subst (asm) digits.simps) auto
    then show ?thesis
    proof
      assume "c \<in> set (digits (m div 10))"
      with "1.IH"[OF False] show ?thesis by simp
    next
      assume "c = digit_char (m mod 10)"
      moreover have "m mod 10 < 10" by simp
      ultimately show ?thesis by blast
    qed
  qed
qed

lemma digits_nonempty: "digits m \<noteq> []"
  by (subst digits.simps) simp

lemma nat_of_digits_append:
  "nat_of_digits acc (xs @ ys) =
     (case nat_of_digits acc xs of None \<Rightarrow> None | Some a \<Rightarrow> nat_of_digits a ys)"
  by (induction xs arbitrary: acc) (auto split: option.splits)

lemma nat_of_digits_digits: "nat_of_digits 0 (digits m) = Some m"
proof (induction m rule: digits.induct)
  case (1 m)
  show ?case
  proof (cases "m < 10")
    case True
    then show ?thesis by (subst digits.simps) (simp add: digit_val_digit_char)
  next
    case False
    have "m mod 10 < 10" by simp
    then have dv: "digit_val (digit_char (m mod 10)) = Some (m mod 10)"
      by (rule digit_val_digit_char)
    have "digits m = digits (m div 10) @ [digit_char (m mod 10)]"
      using False by (subst digits.simps) simp
    then show ?thesis using "1.IH"[OF False] dv by (simp add: nat_of_digits_append)
  qed
qed

lemma py_int_py_str: "py_int (py_str v) = Some v"
proof (cases "v < 0")
  case True
  then show ?thesis
    by (simp add: py_str_def py_int_def digits_nonempty nat_of_digits_digits)
next
  case False
  obtain c cs where d: "digits (nat v) = c # cs" using digits_nonempty[of "nat v"] by (cases "digits (nat v)") auto
  then have "c \<in> set (digits (nat v))" by simp
  from digits_chars[OF this] obtain k where k: "k < 10" "c = digit_char k" by blast
  have ns: "c \<noteq> CHR ''-''" "c \<noteq> CHR ''+''"
    using digit_char_not_minus[OF k(1)] digit_char_not_plus[OF k(1)] k(2) by simp_all
  have "nat_of_digits 0 (c # cs) = Some (nat v)" using nat_of_digits_digits[of "nat v"] d by simp
  then have "py_int (c # cs) = Some v" using ns False unfolding py_int_def by simp
  then show ?thesis using False d by (simp add: py_str_def)
qed

lemma bit_length_le: "m < 2 ^ k \<Longrightarrow> bit_length m \<le> k"
proof (induction k arbitrary: m)
  case 0
  then show ?case by (simp add: bit_length.simps)
next
  case (Suc k)
  show ?case
  proof (cases "m = 0")
    case True
    then show ?thesis by (simp add: bit_length.simps)
  next
    case False
    have "m div 2 < 2 ^ k" using Suc.prems by simp
    from Suc.IH[OF this] show ?thesis using False by (subst bit_length.simps) simp
  qed
qed

lemma bit_length_power: "bit_length (2 ^ k) = Suc k"
proof (induction k)
  case 0
  show ?case by (simp add: bit_length.simps[of "Suc 0"] bit_length.simps[of 0])
next
  case (Suc k)
  then show ?case by (subst bit_length.simps) simp
qed

lemma round_53_exact: "m \<le> 2 ^ 53 \<Longrightarrow> round_53 m = m"
proof (cases "m = 2 ^ 53")
  case True
  have "bit_length m - 53 = 1" unfolding True bit_length_power by simp
  then show ?thesis unfolding round_53_def Let_def using True by simp
next
  case False
  assume "m \<le> 2 ^ 53"
  with False have "m < 2 ^ 53" by simp
  from bit_length_le[OF this] have "bit_length m - 53 = 0" by simp
  then show ?thesis unfolding round_53_def Let_def by simp
qed

lemma double_of_int_exact: "\<bar>v\<bar> \<le> 2 ^ 53 \<Longrightarrow> double_of_int v = real_of_int v"
proof (cases "v < 0")
  case True
  assume "\<bar>v\<bar> \<le> 2 ^ 53"
  then have "nat (- v) \<le> 2 ^ 53" using True by (simp add: nat_le_iff)
  from round_53_exact[OF this] show ?thesis using True by (simp add: double_of_int_def)
next
  case False
  assume "\<bar>v\<bar> \<le> 2 ^ 53"
  then have "nat v \<le> 2 ^ 53" using False by (simp add: nat_le_iff)
  from round_53_exact[OF this] show ?thesis using False by (simp add: double_of_int_def)
qed

lemma py_float_exact: "\<bar>v\<bar> \<le> 2 ^ 53 \<Longrightarrow> py_float (py_str v) = Some (real_of_int v)"
  by (simp add: py_float_def py_int_py_str double_of_int_exact)

lemma digit_char_values:
  "digit_char 0 = CHR ''0''" "digit_char (Suc 0) = CHR ''1''" "digit_char 2 = CHR ''2''"
  "digit_char 3 = CHR ''3''" "digit_char 4 = CHR ''4''" "digit_char 5 = CHR ''5''"
  "digit_char 6 = CHR ''6''" "digit_char 7 = CHR ''7''" "digit_char 8 = CHR ''8''"
  "digit_char 9 = CHR ''9''"
  by code_simp+

lemma py_str_nonempty: "py_str v \<noteq> []"
  by (simp add: py_str_def digits_nonempty)

lemma py_str_no_space: "c \<in> set (py_str v) \<Longrightarrow> \<not> is_space c"
proof -
  assume c: "c \<in> set (py_str v)"
  have m: "\<not> is_space (CHR ''-'')" by (simp add: is_space_def)
  from c consider "c = CHR ''-''" | "c \<in> set (digits (nat (- v)))" | "c \<in> set (digits (nat v))"
    by (auto simp: py_str_def split: if_splits)
  then show ?thesis
  proof cases
    case 1
    then show ?thesis using m by simp
  next
    case 2
    from digits_chars[OF this] show ?thesis using digit_char_not_space by blast
  next
    case 3
    from digits_chars[OF this] show ?thesis using digit_char_not_space by blast
  qed
qed

subsection \<open>The token stream of a text\<close>

lemma split_from_spaces:
  "\<forall>c\<in>set b. is_space c \<Longrightarrow> split_from cur b = split_from cur []"
proof (induction b arbitrary: cur)
  case Nil
  then show ?case by simp
next
  case (Cons c b)
  then have "split_from [] b = split_from [] []" by simp
  with Cons.prems show ?case by simp
qed

lemma split_from_trailing:
  "\<forall>c\<in>set b. is_space c \<Longrightarrow> split_from cur (a @ b) = split_from cur a"
proof (induction a arbitrary: cur)
  case Nil
  then show ?case using split_from_spaces by simp
next
  case (Cons x a)
  then show ?case by simp
qed

lemma split_from_leading:
  "split_from [] (dropWhile is_space s) = split_from [] s"
  by (induction s) simp_all

lemma py_split_strip: "py_split (py_strip s) = py_split s"
proof -
  let ?t = "dropWhile is_space s"
  have "?t = rev (dropWhile is_space (rev ?t)) @ rev (takeWhile is_space (rev ?t))"
    by (metis rev_append rev_rev_ident takeWhile_dropWhile_id)
  moreover have "\<forall>c\<in>set (rev (takeWhile is_space (rev ?t))). is_space c"
    by (auto dest: set_takeWhileD)
  ultimately have "split_from [] (rev (dropWhile is_space (rev ?t))) = split_from [] ?t"
    using split_from_trailing by metis
  then show ?thesis by (simp add: py_split_def py_strip_def split_from_leading)
qed

lemma token_stream_split: "token_stream lines = concat (map py_split lines)"
proof -
  have "(let l = py_strip line in if l = [] then [] else py_split l) = py_split line" for line
  proof (cases "py_strip line = []")
    case True
    then have "py_split (py_strip line) = []" by (simp add: py_split_def)
    then have "py_split line = []" by (simp only: py_split_strip)
    then show ?thesis using True by simp
  next
    case False
    then show ?thesis by (simp add: py_split_strip)
  qed
  then show ?thesis by (simp add: token_stream_def)
qed

lemma split_from_after_space:
  "a \<noteq> [] \<Longrightarrow> is_space (last a) \<Longrightarrow>
   split_from cur (a @ b) = split_from cur a @ split_from [] b"
proof (induction a arbitrary: cur)
  case Nil
  then show ?case by simp
next
  case (Cons x a)
  show ?case
  proof (cases "a = []")
    case True
    with Cons.prems show ?thesis by simp
  next
    case False
    with Cons.prems have "is_space (last a)" by simp
    from Cons.IH[OF False this] show ?thesis by simp
  qed
qed

lemma newline_space: "is_space newline"
  by (simp add: is_space_def newline_def)

lemma readlines_from_split:
  "concat (map py_split (readlines_from cur s)) = py_split (cur @ s)"
proof (induction s arbitrary: cur)
  case Nil
  then show ?case by (simp add: py_split_def)
next
  case (Cons c s)
  show ?case
  proof (cases "c = newline")
    case True
    have "py_split ((cur @ [c]) @ s) = py_split (cur @ [c]) @ py_split s"
      unfolding py_split_def using True newline_space
      by (intro split_from_after_space) simp_all
    then show ?thesis using True Cons.IH[of "[]"] by simp
  next
    case False
    then show ?thesis using Cons.IH[of "cur @ [c]"] by simp
  qed
qed

lemma tokens_of_text: "token_stream (readlines s) = py_split s"
  using readlines_from_split[of "[]" s] by (simp add: token_stream_split readlines_def)

lemma split_from_word:
  "\<forall>c\<in>set w. \<not> is_space c \<Longrightarrow> split_from cur (w @ rest) = split_from (cur @ w) rest"
  by (induction w arbitrary: cur) simp_all

lemma py_split_line:
  assumes "\<forall>w\<in>set ws. w \<noteq> [] \<and> (\<forall>c\<in>set w. \<not> is_space c)"
  shows "py_split (join '' '' ws @ newline # rest) = ws @ py_split rest"
  using assms
proof (induction "'' ''" ws rule: join.induct)
  case 1
  then show ?case by (simp add: py_split_def newline_space)
next
  case (2 x)
  then have "split_from [] (x @ newline # rest) = split_from x (newline # rest)"
    using split_from_word[of x "[]"] by simp
  with 2 show ?case by (simp add: py_split_def newline_space)
next
  case (3 x y ys)
  have sp: "is_space CHR '' ''" by (simp add: is_space_def)
  have "split_from [] (x @ CHR '' '' # join '' '' (y # ys) @ newline # rest)
          = split_from x (CHR '' '' # join '' '' (y # ys) @ newline # rest)"
    using split_from_word[of x "[]"] 3(2) by simp
  also have "\<dots> = x # split_from [] (join '' '' (y # ys) @ newline # rest)"
    using 3(2) sp by simp
  finally show ?case using 3 by (simp add: py_split_def)
qed

lemma py_split_write_line:
  "py_split (write_line vs @ rest) = map py_str vs @ py_split rest"
proof -
  have "\<forall>w\<in>set (map py_str vs). w \<noteq> [] \<and> (\<forall>c\<in>set w. \<not> is_space c)"
    using py_str_nonempty py_str_no_space by auto
  from py_split_line[OF this, of rest] show ?thesis by (simp add: write_line_def)
qed

lemma py_split_write_lines:
  "py_split (concat (map write_line vss) @ rest) = concat (map (map py_str) vss) @ py_split rest"
  by (induction vss) (simp_all add: py_split_write_line)

subsection \<open>Parsing what the writer wrote\<close>

lemma read_sizes_written:
  "\<forall>v. ti (py_str v) = Some v \<Longrightarrow>
   read_sizes ti (length vs) (map py_str vs @ rest) = Inr (vs, rest)"
  by (induction vs) (simp_all add: ebind_def)

lemma read_coeffs_written:
  "\<forall>v\<in>set vs. tf (py_str v) = Some (real_of_int v) \<Longrightarrow>
   read_coeffs tf (length vs) (map py_str vs @ rest) = Inr (map real_of_int vs, rest)"
  by (induction vs) (simp_all add: ebind_def)

lemma read_elems_written:
  "\<forall>v. ti (py_str v) = Some v \<Longrightarrow> \<forall>k\<in>set ks. 1 \<le> k \<and> k \<le> n \<Longrightarrow>
   read_elems ti n i (length ks) (map py_str ks @ rest) = Inr ((\<lambda>k. k - 1) ` set ks, rest)"
  by (induction ks) (simp_all add: ebind_def)

lemma read_subsets_written:
  assumes "\<forall>v. ti (py_str v) = Some v" and "wf_sets n S"
  shows "read_subsets ti (int n) i (map (\<lambda>s. int (card s)) S)
           (concat (map (\<lambda>s. map py_str (sorted_list_of_set s)) S) @ rest)
         = Inr (map (\<lambda>s. (\<lambda>k. k - 1) ` s) S, rest)"
  using assms(2)
proof (induction S arbitrary: i)
  case Nil
  then show ?case by simp
next
  case (Cons s S)
  then have fin: "finite s" and sub: "s \<subseteq> {1..int n}" and wf: "wf_sets n S"
    by (simp_all add: wf_sets_def)
  let ?ks = "sorted_list_of_set s"
  have len: "nat (int (card s)) = length ?ks" by simp
  have rng: "\<forall>k\<in>set ?ks. 1 \<le> k \<and> k \<le> int n" using fin sub by auto
  let ?rest = "concat (map (\<lambda>s. map py_str (sorted_list_of_set s)) S) @ rest"
  have "read_elems ti (int n) i (nat (int (card s))) (map py_str ?ks @ ?rest)
          = Inr ((\<lambda>k. k - 1) ` set ?ks, ?rest)"
    unfolding len by (rule read_elems_written[OF assms(1) rng])
  then have e: "read_elems ti (int n) i (nat (int (card s))) (map py_str ?ks @ ?rest)
          = Inr ((\<lambda>k. k - 1) ` s, ?rest)" using fin by simp
  show ?case using e Cons.IH[OF wf, of "Suc i"] by (simp add: ebind_def)
qed

subsection \<open>The rows and the pairs\<close>

lemma zip_row:
  "length r = n - i \<Longrightarrow>
   zip (map (\<lambda>j. (i, j)) [i..<n]) r = map (\<lambda>j. ((i, j), r ! (j - i))) [i..<n]"
  by (rule nth_equalityI) simp_all

lemma zip_rows:
  "\<forall>i\<in>set js. length (rows ! i) = n - i \<Longrightarrow>
   zip (concat (map (\<lambda>i. map (\<lambda>j. (i, j)) [i..<n]) js)) (concat (map (\<lambda>i. rows ! i) js))
     = concat (map (\<lambda>i. map (\<lambda>j. ((i, j), rows ! i ! (j - i))) [i..<n]) js)"
proof (induction js)
  case Nil
  then show ?case by simp
next
  case (Cons i js)
  then have l: "length (rows ! i) = n - i" by simp
  show ?case using Cons zip_row[OF l] by (simp add: zip_append l)
qed

lemma zip_index_pairs:
  assumes "length rows = n" and "\<forall>i<n. length (rows ! i) = n - i"
  shows "zip (index_pairs n) (concat rows) =
           map (\<lambda>(i, j). ((i, j), rows ! i ! (j - i))) (index_pairs n)"
proof -
  have r: "concat rows = concat (map (\<lambda>i. rows ! i) [0..<n])"
    using assms(1) map_nth[of rows] by simp
  have "zip (index_pairs n) (concat rows)
          = concat (map (\<lambda>i. map (\<lambda>j. ((i, j), rows ! i ! (j - i))) [i..<n]) [0..<n])"
    unfolding r index_pairs_def using assms(2) by (intro zip_rows) simp
  also have "\<dots> = map (\<lambda>(i, j). ((i, j), rows ! i ! (j - i))) (index_pairs n)"
    by (simp add: index_pairs_def map_concat o_def)
  finally show ?thesis .
qed

lemma length_concat_rows:
  assumes "length rows = n" and "\<forall>i<n. length (rows ! i) = n - i"
  shows "length (concat rows) = length (index_pairs n)"
proof -
  have "length (zip (index_pairs n) (concat rows)) = length (index_pairs n)"
    unfolding zip_index_pairs[OF assms] by simp
  moreover have "map length rows = map (\<lambda>i. length (rows ! i)) [0..<n]"
    by (rule nth_equalityI) (simp_all add: assms(1))
  then have "length (concat rows) = sum_list (map (\<lambda>i. length (rows ! i)) [0..<n])"
    by (simp add: length_concat)
  moreover have "map (\<lambda>i. length (rows ! i)) [0..<n] = map (\<lambda>i. n - i) [0..<n]"
    using assms(2) by simp
  moreover have "length (index_pairs n) = sum_list (map (\<lambda>i. n - i) [0..<n])"
    by (simp add: index_pairs_def length_concat o_def)
  ultimately show ?thesis by simp
qed

lemma needed_eq: "nat (int n * (int n + 1) div 2) = length (index_pairs n)"
proof -
  have "int (n * (n + 1) div 2) = int (n * (n + 1)) div 2" by (simp add: zdiv_int)
  moreover have "int (n * (n + 1)) = int n * (int n + 1)" by (simp add: algebra_simps)
  ultimately have "int n * (int n + 1) div 2 = int (n * (n + 1) div 2)" by simp
  then show ?thesis by (simp add: length_index_pairs)
qed

lemma sparse_of_rows_eq:
  assumes "length rows = n" and "\<forall>i<n. length (rows ! i) = n - i"
  shows "filter (\<lambda>(p, a). a \<noteq> 0) (zip (index_pairs n) (map real_of_int (concat rows)))
           = sparse_of_rows n rows"
proof -
  have "zip (index_pairs n) (map real_of_int (concat rows))
          = map (\<lambda>(p, v). (p, real_of_int v)) (zip (index_pairs n) (concat rows))"
    by (simp add: zip_map2)
  also have "\<dots> = map (\<lambda>(i, j). ((i, j), real_of_int (rows ! i ! (j - i)))) (index_pairs n)"
    unfolding zip_index_pairs[OF assms] by (simp add: case_prod_unfold)
  finally show ?thesis
    by (simp add: sparse_of_rows_def filter_map o_def case_prod_unfold)
qed

lemma write_instance_tokens:
  assumes "length A_rows = n"
  shows "\<exists>text. write_instance n S A_rows = Inr text \<and>
           token_stream (readlines text) =
             py_str (int n) # map py_str (map (\<lambda>s. int (card s)) S)
             @ concat (map (\<lambda>s. map py_str (sorted_list_of_set s)) S)
             @ map py_str (concat A_rows)"
proof -
  let ?text = "write_line [int n]
                @ write_line (map (\<lambda>s. int (card s)) S)
                @ concat (map (\<lambda>s. write_line (sorted_list_of_set s)) S)
                @ concat (map (\<lambda>i. write_line (A_rows ! i)) [0..<n])"
  have w: "write_instance n S A_rows = Inr ?text"
    using assms by (simp add: write_instance_def)
  have rows: "map (\<lambda>i. write_line (A_rows ! i)) [0..<n] = map write_line A_rows"
    using assms by (intro nth_equalityI) simp_all
  have sets: "map (\<lambda>s. write_line (sorted_list_of_set s)) S = map write_line (map sorted_list_of_set S)"
    by simp
  have e: "py_split [] = []" by (simp add: py_split_def)
  have "py_split ?text =
          map py_str [int n] @ map py_str (map (\<lambda>s. int (card s)) S)
          @ concat (map (map py_str) (map sorted_list_of_set S))
          @ concat (map (map py_str) A_rows)"
    unfolding rows sets
    using py_split_write_lines[of A_rows "[]"] e
    by (simp only: py_split_write_line py_split_write_lines append_Nil2)
  then have "token_stream (readlines ?text) =
             py_str (int n) # map py_str (map (\<lambda>s. int (card s)) S)
             @ concat (map (\<lambda>s. map py_str (sorted_list_of_set s)) S)
             @ map py_str (concat A_rows)"
    by (simp add: tokens_of_text map_concat o_def)
  with w show ?thesis by blast
qed

lemma parse_written_tokens:
  assumes "length S = n" and "wf_sets n S"
    and "length A_rows = n" and "\<forall>i<n. length (A_rows ! i) = n - i"
    and "\<forall>v. to_int (py_str v) = Some v"
    and "\<forall>row\<in>set A_rows. \<forall>v\<in>set row. to_float (py_str v) = Some (real_of_int v)"
  shows "parse_tokens to_int to_float
           (py_str (int n) # map py_str (map (\<lambda>s. int (card s)) S)
             @ concat (map (\<lambda>s. map py_str (sorted_list_of_set s)) S)
             @ map py_str (concat A_rows))
         = Inr (int n, map (\<lambda>s. (\<lambda>k. k - 1) ` s) S, sparse_of_rows n A_rows)"
proof -
  let ?sizes = "map (\<lambda>s. int (card s)) S"
  let ?elems = "concat (map (\<lambda>s. map py_str (sorted_list_of_set s)) S)"
  let ?vs = "concat A_rows"
  let ?t3 = "map py_str ?vs"
  let ?t2 = "?elems @ ?t3"
  let ?t1 = "map py_str ?sizes @ ?t2"
  have rn: "read_n to_int (py_str (int n) # ?t1) = Inr (int n, ?t1)"
    using assms(5) by (simp add: read_n_def)
  have "read_sizes to_int (length ?sizes) (map py_str ?sizes @ ?t2) = Inr (?sizes, ?t2)"
    by (rule read_sizes_written[OF assms(5)])
  then have rs: "read_sizes to_int (nat (int n)) ?t1 = Inr (?sizes, ?t2)"
    using assms(1) by simp
  have rsub: "read_subsets to_int (int n) 0 ?sizes ?t2 = Inr (map (\<lambda>s. (\<lambda>k. k - 1) ` s) S, ?t3)"
    by (rule read_subsets_written[OF assms(5,2)])
  have lv: "length ?vs = nat (int n * (int n + 1) div 2)"
    using length_concat_rows[OF assms(3,4)] needed_eq[of n] by simp
  have fl: "\<forall>v\<in>set ?vs. to_float (py_str v) = Some (real_of_int v)" using assms(6) by auto
  have "read_coeffs to_float (length ?vs) (map py_str ?vs @ []) = Inr (map real_of_int ?vs, [])"
    by (rule read_coeffs_written[OF fl])
  then have rc: "read_coeffs to_float (nat (int n * (int n + 1) div 2)) ?t3
                   = Inr (map real_of_int ?vs, [])"
    using lv by simp
  have "length (index_pairs n) \<le> length (map real_of_int ?vs)"
    using length_concat_rows[OF assms(3,4)] by simp
  from fill_A_index_pairs[OF this]
  have fa: "fill_A (index_pairs (nat (int n))) (map real_of_int ?vs) 0 [] = Inr (sparse_of_rows n A_rows)"
    using sparse_of_rows_eq[OF assms(3,4)] by simp
  show ?thesis
    unfolding parse_tokens_def
    by (simp only: rn rs rsub rc fa ebind_def sum.case prod.case)
qed

text \<open>
  Claim C3, as amended. For every instance \<open>(n, S, A)\<close> in memory, with \<open>n\<close> finite
  covering sets over \<open>1..n\<close> (empty ones included) and \<open>A\<close> given as \<open>n\<close> rows, row \<open>i\<close>
  of \<open>n - i\<close> integers, each of which \<open>float\<close> reads back exactly from its decimal
  text, \<open>write_instance\<close> writes a file that \<open>parse_instance\<close> parses to: the same \<open>n\<close>;
  the covering sets with every element \<open>k\<close> stored as \<open>k - 1\<close>; and the matrix restricted
  to its nonzero entries, as pairs \<open>(i, j)\<close> with their coefficient as a float. The two
  conversions are the parser's parameters: \<open>int\<close> is taken to read back what \<open>str\<close>
  writes, \<open>float\<close> to do so for the entries of \<open>A\<close>. Every integer of magnitude at most
  \<open>2^53\<close> is such an entry (\<open>py_float_exact\<close>); above it the condition can fail.
\<close>

theorem write_parse_roundtrip:
  assumes "length S = n" and "wf_sets n S"
    and "length A_rows = n" and "\<forall>i<n. length (A_rows ! i) = n - i"
    and "\<forall>v. to_int (py_str v) = Some v"
    and "\<forall>row\<in>set A_rows. \<forall>v\<in>set row. to_float (py_str v) = Some (real_of_int v)"
  shows "\<exists>text. write_instance n S A_rows = Inr text \<and>
           parse_instance to_int to_float text
             = Inr (int n, map (\<lambda>s. (\<lambda>k. k - 1) ` s) S, sparse_of_rows n A_rows)"
proof -
  from write_instance_tokens[OF assms(3), of S] obtain out where
    t: "write_instance n S A_rows = Inr out"
       "token_stream (readlines out) =
             py_str (int n) # map py_str (map (\<lambda>s. int (card s)) S)
             @ concat (map (\<lambda>s. map py_str (sorted_list_of_set s)) S)
             @ map py_str (concat A_rows)" by blast
  have "parse_instance to_int to_float out
          = Inr (int n, map (\<lambda>s. (\<lambda>k. k - 1) ` s) S, sparse_of_rows n A_rows)"
    unfolding parse_instance_def t(2) by (rule parse_written_tokens[OF assms])
  with t(1) show ?thesis by blast
qed

text \<open>Two items, covering sets \<open>{1, 2}\<close> and \<open>{2}\<close>, rows \<open>[3, 0]\<close> and \<open>[-4]\<close>: the
  file written and what the parser returns for it.\<close>

theorem write_parse_roundtrip_witness:
  "length [{1 :: int, 2}, {2}] = 2 \<and> wf_sets 2 [{1, 2}, {2}] \<and>
   length [[3, 0], [- 4 :: int]] = 2 \<and>
   length ([[3, 0], [- 4 :: int]] ! 0) = 2 - 0 \<and>
   length ([[3, 0], [- 4 :: int]] ! 1) = 2 - 1 \<and>
   (\<forall>v. py_int (py_str v) = Some v) \<and>
   list_all (list_all (\<lambda>v. py_float (py_str v) = Some (real_of_int v))) [[3, 0], [- 4]] \<and>
   write_instance 2 [{1, 2}, {2}] [[3, 0], [- 4]]
     = Inr (''2'' @ [newline] @ ''2 1'' @ [newline] @ ''1 2'' @ [newline] @ ''2'' @ [newline]
            @ ''3 0'' @ [newline] @ ''-4'' @ [newline]) \<and>
   parse_instance py_int py_float
     (''2'' @ [newline] @ ''2 1'' @ [newline] @ ''1 2'' @ [newline] @ ''2'' @ [newline]
      @ ''3 0'' @ [newline] @ ''-4'' @ [newline])
     = Inr (2, [{0, 1}, {1}], [((0, 0), 3), ((1, 1), - 4)])"
proof -
  let ?S = "[{1 :: int, 2}, {2}]"
  let ?A = "[[3, 0], [- 4 :: int]]"
  let ?T = "''2'' @ [newline] @ ''2 1'' @ [newline] @ ''1 2'' @ [newline] @ ''2'' @ [newline]
            @ ''3 0'' @ [newline] @ ''-4'' @ [newline]"
  have h1: "length ?S = 2" by simp
  have h2: "wf_sets 2 ?S" by (simp add: wf_sets_def)
  have h3: "length ?A = 2" by simp
  have h4: "\<forall>i<2. length (?A ! i) = 2 - i" by (simp add: All_less_Suc2 numeral_2_eq_2)
  have h5: "\<forall>v. py_int (py_str v) = Some v" by (simp add: py_int_py_str)
  have h6: "\<forall>row\<in>set ?A. \<forall>v\<in>set row. py_float (py_str v) = Some (real_of_int v)"
    by (simp add: py_float_exact)
  have w: "write_instance 2 ?S ?A = Inr ?T" by code_simp
  have m: "map (\<lambda>s. (\<lambda>k. k - 1) ` s) ?S = [{0, 1}, {1}]" by simp
  have sp: "sparse_of_rows 2 ?A = [((0, 0), 3), ((1, 1), - 4)]" by code_simp
  from write_parse_roundtrip [OF h1 h2 h3 h4 h5 h6] w
  have "parse_instance py_int py_float ?T
          = Inr (int 2, map (\<lambda>s. (\<lambda>k. k - 1) ` s) ?S, sparse_of_rows 2 ?A)"
    by auto
  then have p: "parse_instance py_int py_float ?T = Inr (2, [{0, 1}, {1}], [((0, 0), 3), ((1, 1), - 4)])"
    unfolding m sp by simp
  have l4: "length (?A ! 0) = 2 - 0" "length (?A ! 1) = 2 - 1" by simp_all
  have l6: "list_all (list_all (\<lambda>v. py_float (py_str v) = Some (real_of_int v))) ?A"
    by (simp add: py_float_exact)
  from h1 h2 h3 l4 h5 l6 w p show ?thesis by (intro conjI)
qed

subsection \<open>Where the round trip changes the instance\<close>

lemma big_str: "py_str 9007199254740993 = ''9007199254740993''"
  by (simp add: py_str_def digits.simps digit_char_values)

lemma big_float: "py_float ''9007199254740993'' = Some 9007199254740992"
proof -
  have b: "bit_length 9007199254740993 = 54" by (simp add: bit_length.simps)
  have r: "round_53 9007199254740993 = 9007199254740992" by (simp add: round_53_def b)
  have i: "py_int ''9007199254740993'' = Some 9007199254740993"
    by (simp add: py_int_def digit_val_def)
  show ?thesis by (simp add: py_float_def i double_of_int_def r)
qed

text \<open>
  The claim as stated asks for the same covering sets and the same coefficients. The
  parser stores the elements 0-based (\<open>subsets[i].add(k-1)\<close>, "internamente 0-based"), so
  the sets it returns are not the ones written: for one item covering itself, \<open>{1}\<close>
  comes back as \<open>{0}\<close>. And a coefficient is read with \<open>float\<close>, which rounds to 53
  bits: the coefficient \<open>2^53 + 1 = 9007199254740993\<close> comes back as \<open>9007199254740992\<close>.
\<close>

theorem write_parse_roundtrip_counterexample:
  "write_instance 1 [{1}] [[5]]
     = Inr (''1'' @ [newline] @ ''1'' @ [newline] @ ''1'' @ [newline] @ ''5'' @ [newline]) \<and>
   parse_instance py_int py_float
     (''1'' @ [newline] @ ''1'' @ [newline] @ ''1'' @ [newline] @ ''5'' @ [newline])
     = Inr (1, [{0}], [((0, 0), 5)]) \<and>
   [{0 :: int}] \<noteq> [{1}] \<and>
   write_instance 1 [{1}] [[9007199254740993]]
     = Inr (''1'' @ [newline] @ ''1'' @ [newline] @ ''1'' @ [newline]
            @ ''9007199254740993'' @ [newline]) \<and>
   parse_instance py_int py_float
     (''1'' @ [newline] @ ''1'' @ [newline] @ ''1'' @ [newline]
      @ ''9007199254740993'' @ [newline])
     = Inr (1, [{0}], [((0, 0), 9007199254740992)]) \<and>
   sparse_of_rows 1 [[9007199254740993]] = [((0, 0), 9007199254740993)]"
proof -
  let ?T = "''1'' @ [newline] @ ''1'' @ [newline] @ ''1'' @ [newline]
            @ ''9007199254740993'' @ [newline]"
  have a: "write_instance 1 [{1}] [[5]]
     = Inr (''1'' @ [newline] @ ''1'' @ [newline] @ ''1'' @ [newline] @ ''5'' @ [newline])"
    by code_simp
  have b: "parse_instance py_int py_float
     (''1'' @ [newline] @ ''1'' @ [newline] @ ''1'' @ [newline] @ ''5'' @ [newline])
     = Inr (1, [{0}], [((0, 0), 5)])"
    by code_simp
  have c: "[{0 :: int}] \<noteq> [{1}]" by simp
  have one: "py_str 1 = ''1''" by code_simp
  have w: "write_instance 1 [{1}] [[9007199254740993]] = Inr ?T"
    by (simp add: write_instance_def write_line_def big_str one)
  have t: "token_stream (readlines ?T) = [''1'', ''1'', ''1'', ''9007199254740993'']"
    by code_simp
  have i1: "py_int ''1'' = Some 1" by code_simp
  have ip: "index_pairs (Suc 0) = [(0, 0)]" by code_simp
  have p: "parse_instance py_int py_float ?T = Inr (1, [{0}], [((0, 0), 9007199254740992)])"
    unfolding parse_instance_def t
    by (simp add: parse_tokens_def read_n_def ebind_def i1 big_float ip)
  have s: "sparse_of_rows 1 [[9007199254740993]] = [((0, 0), 9007199254740993)]"
    by (simp add: sparse_of_rows_def ip)
  from a b c w p s show ?thesis by (intro conjI)
qed


section \<open>Determinism of the generator\<close>

subsection \<open>The counts do not depend on the order of the walk\<close>

lemma list_index_bound: "list_index len k = Some p \<Longrightarrow> p < len"
  by (auto simp: list_index_def split: if_splits)

lemma count_elems_closed:
  "count_elems ks covered =
     (if \<exists>k\<in>set ks. list_index (length covered) k = None then Inl IndexError
      else Inr (map (\<lambda>p. covered ! p
                  + length (filter (\<lambda>k. list_index (length covered) k = Some p) ks))
                [0..<length covered]))"
proof (induction ks arbitrary: covered)
  case Nil
  show ?case by (simp add: map_nth)
next
  case (Cons k ks)
  show ?case
  proof (cases "list_index (length covered) k")
    case None
    then show ?thesis by simp
  next
    case (Some p)
    then have p: "p < length covered" by (rule list_index_bound)
    let ?c = "covered[p := covered ! p + 1]"
    have len: "length ?c = length covered" by simp
    have m: "map (\<lambda>q. ?c ! q + length (filter (\<lambda>k. list_index (length covered) k = Some q) ks))
               [0..<length covered]
           = map (\<lambda>q. covered ! q
                    + length (filter (\<lambda>k. list_index (length covered) k = Some q) (k # ks)))
               [0..<length covered]"
      using Some p by (intro map_cong) (auto simp: nth_list_update)
    show ?thesis
      using Some Cons.IH[of ?c] unfolding len m[symmetric] by simp
  qed
qed

lemma count_elems_order:
  assumes "distinct ks" and "distinct ks'" and "set ks = set ks'"
  shows "count_elems ks covered = count_elems ks' covered"
proof -
  have "length (filter P ks) = length (filter P ks')" for P
    using assms by (simp add: distinct_length_filter)
  then show ?thesis unfolding count_elems_closed using assms(3) by simp
qed

lemma count_sets_iter_eq:
  assumes "faithful_iter iter" and "\<forall>s\<in>set S. finite s"
  shows "count_sets_iter iter S covered = count_sets S covered"
  using assms(2)
proof (induction S arbitrary: covered)
  case Nil
  show ?case by simp
next
  case (Cons s S)
  then have fs: "finite s" by simp
  then have "distinct (iter s)" "set (iter s) = s"
    using assms(1) by (simp_all add: faithful_iter_def)
  then have "count_elems (iter s) covered = count_elems (sorted_list_of_set s) covered"
    using fs by (intro count_elems_order) simp_all
  moreover have "count_sets_iter iter S = count_sets S" using Cons by auto
  ultimately show ?case by simp
qed

lemma enforce_coverage_iter_eq:
  "faithful_iter iter \<Longrightarrow> \<forall>s\<in>set S. finite s \<Longrightarrow>
   enforce_coverage_iter iter S n = enforce_coverage S n"
  by (simp add: enforce_coverage_iter_def enforce_coverage_def count_sets_iter_eq)

lemma sort_iter:
  assumes "faithful_iter iter" and "finite s"
  shows "sort (iter s) = sorted_list_of_set s"
proof -
  have d: "distinct (iter s)" and e: "set (iter s) = s"
    using assms by (simp_all add: faithful_iter_def)
  have "sorted_list_of_set (set (iter s)) = sort (remdups (iter s))"
    by (rule sorted_list_of_set_sort_remdups)
  then show ?thesis using d e by (simp add: distinct_remdups_id)
qed

lemma write_instance_iter_eq:
  assumes "faithful_iter iter" and "\<forall>s\<in>set S. finite s"
  shows "write_instance_iter iter n S A_rows = write_instance n S A_rows"
proof -
  have m: "map (\<lambda>s. write_line (sort (iter s))) S = map (\<lambda>s. write_line (sorted_list_of_set s)) S"
    using assms by (intro map_cong) (simp_all add: sort_iter)
  show ?thesis unfolding write_instance_iter_def write_instance_def m by (rule refl)
qed

subsection \<open>The covering sets are finite\<close>

lemma uniform_loop_finite: "\<forall>s\<in>set (fst (uniform_loop L p n m g)). finite s"
  using uniform_loop_ok[of L p n m g] by (simp add: wf_sets_def)

lemma interval_loop_finite: "\<forall>s\<in>set (fst (interval_loop L n avg js g)). finite s"
proof (induction js arbitrary: g)
  case Nil
  show ?case by simp
next
  case (Cons j js)
  obtain r g1 where r: "rnd_random L g = (r, g1)" by (cases "rnd_random L g")
  obtain S g2 where S: "interval_loop L n avg js g1 = (S, g2)" by (cases "interval_loop L n avg js g1")
  from Cons[of g1] S have "\<forall>s\<in>set S. finite s" by simp
  then show ?case using r S by (simp add: Let_def)
qed

lemma pareto_loop_finite:
  "pareto_loop L n avg m g = Inr (S, g') \<Longrightarrow> \<forall>s\<in>set S. finite s"
proof (induction m arbitrary: g S g')
  case 0
  then show ?case by simp
next
  case (Suc m)
  obtain v g1 where v: "rnd_paretovariate L 2 g = (v, g1)" by (cases "rnd_paretovariate L 2 g")
  let ?size = "max 1 (min (3 * avg) (py_round (real_of_int avg * min v 3)))"
  let ?first = "if int n \<le> ?size then Inr (set [1..int n], g1)
            else ebind (py_sample L [1..int n] ?size g1) (\<lambda>(xs, g2). Inr (set xs, g2))"
  have eq: "pareto_loop L n avg (Suc m) g =
        ebind ?first (\<lambda>(s, g3). ebind (pareto_loop L n avg m g3) (\<lambda>(S, g4). Inr (s # S, g4)))"
    by (simp add: v Let_def)
  from Suc.prems obtain s g3 where f: "?first = Inr (s, g3)"
    unfolding eq by (cases ?first) (auto simp: ebind_def)
  have fs: "finite s"
  proof (cases "int n \<le> ?size")
    case True
    then show ?thesis using f by auto
  next
    case False
    then show ?thesis using f
      by (cases "py_sample L [1..int n] ?size g1") (auto simp: ebind_def)
  qed
  from Suc.prems obtain S' g4 where r: "pareto_loop L n avg m g3 = Inr (S', g4)" and S: "S = s # S'"
    unfolding eq f by (cases "pareto_loop L n avg m g3") (auto simp: ebind_def)
  from Suc.IH[OF r] fs S show ?case by simp
qed

lemma pattern_finite:
  assumes "(if pattern = ''uniform'' then pattern_uniform L n g
            else if pattern = ''interval'' then Inr (pattern_interval L n g)
            else if pattern = ''pareto'' then pattern_pareto L n g
            else Inl (ValueError (''Padr'' @ [CHR 0xE3] @ ''o desconhecido: '' @ pattern)))
           = Inr (S, g')"
  shows "\<forall>s\<in>set S. finite s"
proof -
  consider "pattern = ''uniform''" | "pattern = ''interval''" | "pattern = ''pareto''"
    | "pattern \<noteq> ''uniform''" "pattern \<noteq> ''interval''" "pattern \<noteq> ''pareto''" by blast
  then show ?thesis
  proof cases
    case 1
    then have "pattern_uniform L n g = Inr (S, g')" using assms by simp
    then have "S = fst (uniform_loop L (real_of_int (avg_size n) / real n) n n g)"
      by (auto simp: pattern_uniform_def Let_def split: if_splits)
    then show ?thesis using uniform_loop_finite by simp
  next
    case 2
    then have "pattern_interval L n g = (S, g')" using assms by simp
    then have "S = fst (interval_loop L n (avg_size n) [1..int n] g)"
      by (simp add: pattern_interval_def Let_def)
    then show ?thesis using interval_loop_finite by simp
  next
    case 3
    then have "pattern_pareto L n g = Inr (S, g')" using assms by simp
    then show ?thesis using pareto_loop_finite by (simp add: pattern_pareto_def Let_def)
  next
    case 4
    then show ?thesis using assms by simp
  qed
qed

lemma build_sets_iter_eq:
  assumes "faithful_iter iter"
  shows "build_sets_iter iter L n pattern g = build_sets L n pattern g"
proof -
  let ?pat = "if pattern = ''uniform'' then pattern_uniform L n g
            else if pattern = ''interval'' then Inr (pattern_interval L n g)
            else if pattern = ''pareto'' then pattern_pareto L n g
            else Inl (ValueError (''Padr'' @ [CHR 0xE3] @ ''o desconhecido: '' @ pattern))"
  show ?thesis
  proof (cases ?pat)
    case (Inl e)
    then show ?thesis by (simp add: build_sets_iter_def build_sets_def ebind_def)
  next
    case (Inr b)
    obtain S g1 where b: "b = (S, g1)" by (cases b)
    from Inr b have "?pat = Inr (S, g1)" by simp
    from pattern_finite[OF this] have "enforce_coverage_iter iter S n = enforce_coverage S n"
      using assms by (simp add: enforce_coverage_iter_eq)
    then show ?thesis using Inr b
      by (simp add: build_sets_iter_def build_sets_def ebind_def)
  qed
qed

lemma add_missing_finite:
  "add_missing ks S = Inr S' \<Longrightarrow> \<forall>s\<in>set S. finite s \<Longrightarrow> \<forall>s\<in>set S'. finite s"
proof (induction ks arbitrary: S)
  case Nil
  then show ?case by simp
next
  case (Cons k ks)
  from Cons.prems(1) obtain idx where i: "smallest_index S = Some idx"
    and r: "add_missing ks (S[idx := insert k (S ! idx)]) = Inr S'"
    by (cases "smallest_index S") auto
  have "\<forall>s\<in>set (S[idx := insert k (S ! idx)]). finite s"
  proof (cases "idx < length S")
    case True
    then have "finite (insert k (S ! idx))" using Cons.prems(2) by simp
    then show ?thesis using Cons.prems(2) set_update_subset_insert[of S idx "insert k (S ! idx)"]
      by blast
  next
    case False
    then have "S[idx := insert k (S ! idx)] = S" by (intro list_update_beyond) simp
    then show ?thesis using Cons.prems(2) by simp
  qed
  from Cons.IH[OF r this] show ?case .
qed

lemma nonempty_fix_finite:
  "nonempty_fix L S n g = Inr (S', g') \<Longrightarrow> \<forall>s\<in>set S. finite s \<Longrightarrow> \<forall>s\<in>set S'. finite s"
proof (induction S arbitrary: g S' g')
  case Nil
  then show ?case by simp
next
  case (Cons s S)
  let ?first = "if s = {} then
          ebind (py_randrange L 1 (int n + 1) g) (\<lambda>(k, g1). Inr (insert k s, g1))
        else Inr (s, g)"
  from Cons.prems(1) obtain s' g2 where f: "?first = Inr (s', g2)"
    by (cases ?first) (auto simp: ebind_def)
  have fs: "finite s'"
  proof (cases "s = {}")
    case True
    then show ?thesis using f
      by (cases "py_randrange L 1 (int n + 1) g") (auto simp: ebind_def)
  next
    case False
    then show ?thesis using f Cons.prems(2) by simp
  qed
  from Cons.prems(1) f obtain T g3 where r: "nonempty_fix L S n g2 = Inr (T, g3)" and S': "S' = s' # T"
    by (cases "nonempty_fix L S n g2") (auto simp: ebind_def)
  from Cons.IH[OF r] Cons.prems(2) fs S' show ?case by simp
qed

lemma build_sets_finite:
  assumes "build_sets L n pattern g = Inr (S, g')"
  shows "\<forall>s\<in>set S. finite s"
proof -
  let ?pat = "if pattern = ''uniform'' then pattern_uniform L n g
            else if pattern = ''interval'' then Inr (pattern_interval L n g)
            else if pattern = ''pareto'' then pattern_pareto L n g
            else Inl (ValueError (''Padr'' @ [CHR 0xE3] @ ''o desconhecido: '' @ pattern))"
  from assms obtain S0 g1 where p: "?pat = Inr (S0, g1)"
    unfolding build_sets_def by (cases ?pat) (auto simp: ebind_def)
  from assms obtain S1 where e: "enforce_coverage S0 n = Inr S1"
    and f: "nonempty_fix L S1 n g1 = Inr (S, g')"
    unfolding build_sets_def p by (cases "enforce_coverage S0 n") (auto simp: ebind_def)
  have "\<forall>s\<in>set S1. finite s"
  proof (cases "count_sets S0 (replicate (n + 1) 0)")
    case (Inl err)
    then show ?thesis using e by (simp add: enforce_coverage_def ebind_def)
  next
    case (Inr covered)
    then have a: "add_missing (filter (\<lambda>k. covered ! nat k = 0) [1..int n]) S0 = Inr S1"
      using e by (simp add: enforce_coverage_def ebind_def Let_def)
    from add_missing_finite[OF a pattern_finite[OF p]] show ?thesis .
  qed
  from nonempty_fix_finite[OF f this] show ?thesis .
qed

subsection \<open>The generator sees its random source through the values drawn\<close>

lemma rel_pairE:
  assumes "rel_prod (=) R x y"
  obtains v g h where "x = (v, g)" and "y = (v, h)" and "R g h"
  using assms by (cases x; cases y) simp

lemma ebind_rel:
  assumes "rel_sum (=) A m1 m2"
    and "\<And>x y. A x y \<Longrightarrow> rel_sum (=) B (f1 x) (f2 y)"
  shows "rel_sum (=) B (ebind m1 f1) (ebind m2 f2)"
  using assms by (cases m1; cases m2) (simp_all add: ebind_def)

lemma stream_random:
  "same_stream R L1 L2 \<Longrightarrow> R g h \<Longrightarrow> rel_prod (=) R (rnd_random L1 g) (rnd_random L2 h)"
  by (simp add: same_stream_def)

lemma stream_paretovariate:
  "same_stream R L1 L2 \<Longrightarrow> R g h \<Longrightarrow>
   rel_prod (=) R (rnd_paretovariate L1 alpha g) (rnd_paretovariate L2 alpha h)"
  by (simp add: same_stream_def)

lemma stream_randint:
  "same_stream R L1 L2 \<Longrightarrow> R g h \<Longrightarrow>
   rel_sum (=) (rel_prod (=) R) (py_randint L1 a b g) (py_randint L2 a b h)"
  by (simp add: same_stream_def py_randint_def)

lemma stream_randrange:
  "same_stream R L1 L2 \<Longrightarrow> R g h \<Longrightarrow>
   rel_sum (=) (rel_prod (=) R) (py_randrange L1 a b g) (py_randrange L2 a b h)"
  by (simp add: same_stream_def py_randrange_def)

lemma stream_sample:
  "same_stream R L1 L2 \<Longrightarrow> R g h \<Longrightarrow>
   rel_sum (=) (rel_prod (=) R) (py_sample L1 pop k g) (py_sample L2 pop k h)"
  by (simp add: same_stream_def py_sample_def)

lemma uniform_set_stream:
  assumes "same_stream R L1 L2"
  shows "R g h \<Longrightarrow> rel_prod (=) R (uniform_set L1 p ks g) (uniform_set L2 p ks h)"
proof (induction ks arbitrary: g h)
  case Nil
  then show ?case by simp
next
  case (Cons k ks)
  from stream_random[OF assms Cons.prems] obtain v g1 h1 where
    r: "rnd_random L1 g = (v, g1)" "rnd_random L2 h = (v, h1)" "R g1 h1" by (rule rel_pairE)
  from Cons.IH[OF r(3)] obtain s g2 h2 where
    u: "uniform_set L1 p ks g1 = (s, g2)" "uniform_set L2 p ks h1 = (s, h2)" "R g2 h2"
    by (rule rel_pairE)
  show ?case by (simp add: r u)
qed

lemma uniform_loop_stream:
  assumes "same_stream R L1 L2"
  shows "R g h \<Longrightarrow> rel_prod (=) R (uniform_loop L1 p n m g) (uniform_loop L2 p n m h)"
proof (induction m arbitrary: g h)
  case 0
  then show ?case by simp
next
  case (Suc m)
  from uniform_set_stream[OF assms Suc.prems] obtain s g1 h1 where
    u: "uniform_set L1 p [1..int n] g = (s, g1)" "uniform_set L2 p [1..int n] h = (s, h1)"
       "R g1 h1" by (rule rel_pairE)
  from Suc.IH[OF u(3)] obtain S g2 h2 where
    l: "uniform_loop L1 p n m g1 = (S, g2)" "uniform_loop L2 p n m h1 = (S, h2)" "R g2 h2"
    by (rule rel_pairE)
  show ?case by (simp add: u l)
qed

lemma interval_loop_stream:
  assumes "same_stream R L1 L2"
  shows "R g h \<Longrightarrow> rel_prod (=) R (interval_loop L1 n avg js g) (interval_loop L2 n avg js h)"
proof (induction js arbitrary: g h)
  case Nil
  then show ?case by simp
next
  case (Cons j js)
  from stream_random[OF assms Cons.prems] obtain v g1 h1 where
    r: "rnd_random L1 g = (v, g1)" "rnd_random L2 h = (v, h1)" "R g1 h1" by (rule rel_pairE)
  from Cons.IH[OF r(3)] obtain S g2 h2 where
    l: "interval_loop L1 n avg js g1 = (S, g2)" "interval_loop L2 n avg js h1 = (S, h2)"
       "R g2 h2" by (rule rel_pairE)
  show ?case by (simp add: r l Let_def)
qed

lemma pareto_loop_stream:
  assumes "same_stream (R :: 'g \<Rightarrow> 'h \<Rightarrow> bool) L1 L2"
  shows "R g h \<Longrightarrow>
    rel_sum (=) (rel_prod (=) R) (pareto_loop L1 n avg m g) (pareto_loop L2 n avg m h)"
proof (induction m arbitrary: g h)
  case 0
  then show ?case by simp
next
  case (Suc m)
  from stream_paretovariate[OF assms Suc.prems] obtain v g1 h1 where
    r: "rnd_paretovariate L1 2 g = (v, g1)" "rnd_paretovariate L2 2 h = (v, h1)" "R g1 h1"
    by (rule rel_pairE)
  let ?size = "max 1 (min (3 * avg) (py_round (real_of_int avg * min v 3)))"
  let ?f1 = "if int n \<le> ?size then Inr (set [1..int n], g1)
            else ebind (py_sample L1 [1..int n] ?size g1) (\<lambda>(xs, g2). Inr (set xs, g2))"
  let ?f2 = "if int n \<le> ?size then Inr (set [1..int n], h1)
            else ebind (py_sample L2 [1..int n] ?size h1) (\<lambda>(xs, g2). Inr (set xs, g2))"
  have e1: "pareto_loop L1 n avg (Suc m) g =
        ebind ?f1 (\<lambda>(s, g3). ebind (pareto_loop L1 n avg m g3) (\<lambda>(S, g4). Inr (s # S, g4)))"
    by (simp add: r Let_def)
  have e2: "pareto_loop L2 n avg (Suc m) h =
        ebind ?f2 (\<lambda>(s, g3). ebind (pareto_loop L2 n avg m g3) (\<lambda>(S, g4). Inr (s # S, g4)))"
    by (simp add: r Let_def)
  have first: "rel_sum (=) (rel_prod (=) R) ?f1 ?f2"
  proof (cases "int n \<le> ?size")
    case True
    then show ?thesis using r(3) by simp
  next
    case False
    have "rel_sum (=) (rel_prod (=) R)
            (ebind (py_sample L1 [1..int n] ?size g1) (\<lambda>(xs, g2). Inr (set xs, g2)))
            (ebind (py_sample L2 [1..int n] ?size h1) (\<lambda>(xs, g2). Inr (set xs, g2)))"
      by (rule ebind_rel[OF stream_sample[OF assms r(3)]]) auto
    then show ?thesis using False by simp
  qed
  show ?case unfolding e1 e2
  proof (rule ebind_rel[OF first])
    fix x :: "int set \<times> 'g" and y :: "int set \<times> 'h" assume "rel_prod (=) R x y"
    then obtain s g3 h3 where x: "x = (s, g3)" "y = (s, h3)" "R g3 h3" by (rule rel_pairE)
    have "rel_sum (=) (rel_prod (=) R)
            (ebind (pareto_loop L1 n avg m g3) (\<lambda>(S, g4). Inr (s # S, g4)))
            (ebind (pareto_loop L2 n avg m h3) (\<lambda>(S, g4). Inr (s # S, g4)))"
      by (rule ebind_rel[OF Suc.IH[OF x(3)]]) auto
    then show "rel_sum (=) (rel_prod (=) R)
            (case x of (s, g3) \<Rightarrow> ebind (pareto_loop L1 n avg m g3) (\<lambda>(S, g4). Inr (s # S, g4)))
            (case y of (s, g3) \<Rightarrow> ebind (pareto_loop L2 n avg m g3) (\<lambda>(S, g4). Inr (s # S, g4)))"
      by (simp add: x)
  qed
qed

lemma nonempty_fix_stream:
  assumes "same_stream (R :: 'g \<Rightarrow> 'h \<Rightarrow> bool) L1 L2"
  shows "R g h \<Longrightarrow>
    rel_sum (=) (rel_prod (=) R) (nonempty_fix L1 S n g) (nonempty_fix L2 S n h)"
proof (induction S arbitrary: g h)
  case Nil
  then show ?case by simp
next
  case (Cons s S)
  let ?f1 = "if s = {} then
          ebind (py_randrange L1 1 (int n + 1) g) (\<lambda>(k, g1). Inr (insert k s, g1))
        else Inr (s, g)"
  let ?f2 = "if s = {} then
          ebind (py_randrange L2 1 (int n + 1) h) (\<lambda>(k, g1). Inr (insert k s, g1))
        else Inr (s, h)"
  have first: "rel_sum (=) (rel_prod (=) R) ?f1 ?f2"
  proof (cases "s = {}")
    case True
    have "rel_sum (=) (rel_prod (=) R)
            (ebind (py_randrange L1 1 (int n + 1) g) (\<lambda>(k, g1). Inr (insert k s, g1)))
            (ebind (py_randrange L2 1 (int n + 1) h) (\<lambda>(k, g1). Inr (insert k s, g1)))"
      by (rule ebind_rel[OF stream_randrange[OF assms Cons.prems]]) auto
    then show ?thesis using True by simp
  next
    case False
    then show ?thesis using Cons.prems by simp
  qed
  have "rel_sum (=) (rel_prod (=) R)
          (ebind ?f1 (\<lambda>(s', g2). ebind (nonempty_fix L1 S n g2) (\<lambda>(S', g3). Inr (s' # S', g3))))
          (ebind ?f2 (\<lambda>(s', g2). ebind (nonempty_fix L2 S n g2) (\<lambda>(S', g3). Inr (s' # S', g3))))"
  proof (rule ebind_rel[OF first])
    fix x :: "int set \<times> 'g" and y :: "int set \<times> 'h" assume "rel_prod (=) R x y"
    then obtain s' g2 h2 where x: "x = (s', g2)" "y = (s', h2)" "R g2 h2" by (rule rel_pairE)
    have "rel_sum (=) (rel_prod (=) R)
            (ebind (nonempty_fix L1 S n g2) (\<lambda>(S', g3). Inr (s' # S', g3)))
            (ebind (nonempty_fix L2 S n h2) (\<lambda>(S', g3). Inr (s' # S', g3)))"
      by (rule ebind_rel[OF Cons.IH[OF x(3)]]) auto
    then show "rel_sum (=) (rel_prod (=) R)
            (case x of (s', g2) \<Rightarrow> ebind (nonempty_fix L1 S n g2) (\<lambda>(S', g3). Inr (s' # S', g3)))
            (case y of (s', g2) \<Rightarrow> ebind (nonempty_fix L2 S n g2) (\<lambda>(S', g3). Inr (s' # S', g3)))"
      by (simp add: x)
  qed
  then show ?case by simp
qed

lemma pattern_stream:
  assumes "same_stream R L1 L2" and "R g h"
  shows "rel_sum (=) (rel_prod (=) R)
     (if pattern = ''uniform'' then pattern_uniform L1 n g
      else if pattern = ''interval'' then Inr (pattern_interval L1 n g)
      else if pattern = ''pareto'' then pattern_pareto L1 n g
      else Inl (ValueError (''Padr'' @ [CHR 0xE3] @ ''o desconhecido: '' @ pattern)))
     (if pattern = ''uniform'' then pattern_uniform L2 n h
      else if pattern = ''interval'' then Inr (pattern_interval L2 n h)
      else if pattern = ''pareto'' then pattern_pareto L2 n h
      else Inl (ValueError (''Padr'' @ [CHR 0xE3] @ ''o desconhecido: '' @ pattern)))"
proof -
  have u: "rel_sum (=) (rel_prod (=) R) (pattern_uniform L1 n g) (pattern_uniform L2 n h)"
    using uniform_loop_stream[OF assms] by (simp add: pattern_uniform_def Let_def)
  have i: "rel_prod (=) R (pattern_interval L1 n g) (pattern_interval L2 n h)"
    using interval_loop_stream[OF assms] by (simp add: pattern_interval_def Let_def)
  have p: "rel_sum (=) (rel_prod (=) R) (pattern_pareto L1 n g) (pattern_pareto L2 n h)"
    using pareto_loop_stream[OF assms] by (simp add: pattern_pareto_def Let_def)
  show ?thesis using u i p by simp
qed

lemma build_sets_stream:
  assumes "same_stream (R :: 'g \<Rightarrow> 'h \<Rightarrow> bool) L1 L2" and "R g h"
  shows "rel_sum (=) (rel_prod (=) R) (build_sets L1 n pattern g) (build_sets L2 n pattern h)"
  unfolding build_sets_def
proof (rule ebind_rel[OF pattern_stream[OF assms]])
  fix x :: "int set list \<times> 'g" and y :: "int set list \<times> 'h" assume "rel_prod (=) R x y"
  then obtain S g1 h1 where x: "x = (S, g1)" "y = (S, h1)" "R g1 h1" by (rule rel_pairE)
  have "rel_sum (=) (rel_prod (=) R)
          (ebind (enforce_coverage S n) (\<lambda>S1. nonempty_fix L1 S1 n g1))
          (ebind (enforce_coverage S n) (\<lambda>S1. nonempty_fix L2 S1 n h1))"
    using nonempty_fix_stream[OF assms(1) x(3)]
    by (cases "enforce_coverage S n") (simp_all add: ebind_def)
  then show "rel_sum (=) (rel_prod (=) R)
          (case x of (S, g1) \<Rightarrow> ebind (enforce_coverage S n) (\<lambda>S1. nonempty_fix L1 S1 n g1))
          (case y of (S, g1) \<Rightarrow> ebind (enforce_coverage S n) (\<lambda>S1. nonempty_fix L2 S1 n g1))"
    by (simp add: x)
qed

lemma off_entries_stream:
  assumes "same_stream (R :: 'g \<Rightarrow> 'h \<Rightarrow> bool) L1 L2"
  shows "R g h \<Longrightarrow>
    rel_sum (=) (rel_prod (=) R) (off_entries L1 density off_range m g)
                                 (off_entries L2 density off_range m h)"
proof (induction m arbitrary: g h)
  case 0
  then show ?case by simp
next
  case (Suc m)
  from stream_random[OF assms Suc.prems] obtain r g1 h1 where
    r: "rnd_random L1 g = (r, g1)" "rnd_random L2 h = (r, h1)" "R g1 h1" by (rule rel_pairE)
  let ?e1 = "if r < density then
           ebind (py_randint L1 (fst off_range) (snd off_range) g1) (\<lambda>(aij, g2).
             if aij = 0 then
               (let (r2, g3) = rnd_random L1 g2 in Inr (if r2 < 1 / 2 then 1 else - 1, g3))
             else Inr (aij, g2))
         else Inr (0, g1)"
  let ?e2 = "if r < density then
           ebind (py_randint L2 (fst off_range) (snd off_range) h1) (\<lambda>(aij, g2).
             if aij = 0 then
               (let (r2, g3) = rnd_random L2 g2 in Inr (if r2 < 1 / 2 then 1 else - 1, g3))
             else Inr (aij, g2))
         else Inr (0, h1)"
  have e1: "off_entries L1 density off_range (Suc m) g =
      ebind ?e1 (\<lambda>(aij, g4).
           ebind (off_entries L1 density off_range m g4) (\<lambda>(rest, g5). Inr (aij # rest, g5)))"
    by (simp add: r)
  have e2: "off_entries L2 density off_range (Suc m) h =
      ebind ?e2 (\<lambda>(aij, g4).
           ebind (off_entries L2 density off_range m g4) (\<lambda>(rest, g5). Inr (aij # rest, g5)))"
    by (simp add: r)
  have entry: "rel_sum (=) (rel_prod (=) R) ?e1 ?e2"
  proof (cases "r < density")
    case False
    then show ?thesis using r(3) by simp
  next
    case True
    have "rel_sum (=) (rel_prod (=) R)
           (ebind (py_randint L1 (fst off_range) (snd off_range) g1) (\<lambda>(aij, g2).
             if aij = 0 then
               (let (r2, g3) = rnd_random L1 g2 in Inr (if r2 < 1 / 2 then 1 else - 1, g3))
             else Inr (aij, g2)))
           (ebind (py_randint L2 (fst off_range) (snd off_range) h1) (\<lambda>(aij, g2).
             if aij = 0 then
               (let (r2, g3) = rnd_random L2 g2 in Inr (if r2 < 1 / 2 then 1 else - 1, g3))
             else Inr (aij, g2)))"
    proof (rule ebind_rel[OF stream_randint[OF assms r(3)]])
      fix x :: "int \<times> 'g" and y :: "int \<times> 'h" assume "rel_prod (=) R x y"
      then obtain a g2 h2 where x: "x = (a, g2)" "y = (a, h2)" "R g2 h2" by (rule rel_pairE)
      from stream_random[OF assms x(3)] obtain r2 g3 h3 where
        r2: "rnd_random L1 g2 = (r2, g3)" "rnd_random L2 h2 = (r2, h3)" "R g3 h3"
        by (rule rel_pairE)
      show "rel_sum (=) (rel_prod (=) R)
             (case x of (aij, g2) \<Rightarrow>
               if aij = 0 then
                 (let (r2, g3) = rnd_random L1 g2 in Inr (if r2 < 1 / 2 then 1 else - 1, g3))
               else Inr (aij, g2))
             (case y of (aij, g2) \<Rightarrow>
               if aij = 0 then
                 (let (r2, g3) = rnd_random L2 g2 in Inr (if r2 < 1 / 2 then 1 else - 1, g3))
               else Inr (aij, g2))"
        using x(3) by (simp add: x r2)
    qed
    then show ?thesis using True by simp
  qed
  show ?case unfolding e1 e2
  proof (rule ebind_rel[OF entry])
    fix x :: "int \<times> 'g" and y :: "int \<times> 'h" assume "rel_prod (=) R x y"
    then obtain a g4 h4 where x: "x = (a, g4)" "y = (a, h4)" "R g4 h4" by (rule rel_pairE)
    have "rel_sum (=) (rel_prod (=) R)
            (ebind (off_entries L1 density off_range m g4) (\<lambda>(rest, g5). Inr (a # rest, g5)))
            (ebind (off_entries L2 density off_range m h4) (\<lambda>(rest, g5). Inr (a # rest, g5)))"
      by (rule ebind_rel[OF Suc.IH[OF x(3)]]) auto
    then show "rel_sum (=) (rel_prod (=) R)
            (case x of (aij, g4) \<Rightarrow>
               ebind (off_entries L1 density off_range m g4) (\<lambda>(rest, g5). Inr (aij # rest, g5)))
            (case y of (aij, g4) \<Rightarrow>
               ebind (off_entries L2 density off_range m g4) (\<lambda>(rest, g5). Inr (aij # rest, g5)))"
      by (simp add: x)
  qed
qed

lemma gen_row_stream:
  assumes "same_stream (R :: 'g \<Rightarrow> 'h \<Rightarrow> bool) L1 L2" and "R g h"
  shows "rel_sum (=) (rel_prod (=) R) (gen_row L1 n density diag_range off_range i g)
                                      (gen_row L2 n density diag_range off_range i h)"
  unfolding gen_row_def
proof (rule ebind_rel[OF stream_randint[OF assms]])
  fix x :: "int \<times> 'g" and y :: "int \<times> 'h" assume "rel_prod (=) R x y"
  then obtain a g1 h1 where x: "x = (a, g1)" "y = (a, h1)" "R g1 h1" by (rule rel_pairE)
  from stream_random[OF assms(1) x(3)] obtain r g' h' where
    r: "rnd_random L1 g1 = (r, g')" "rnd_random L2 h1 = (r, h')" "R g' h'" by (rule rel_pairE)
  show "rel_sum (=) (rel_prod (=) R)
     (case x of (aii0, g1) \<Rightarrow>
       let (aii, g2) =
             (if aii0 = 0 then
                (let (r, g') = rnd_random L1 g1 in (if r < 1 / 2 then 1 else - 1, g'))
              else (aii0, g1))
       in ebind (off_entries L1 density off_range (n - (i + 1)) g2) (\<lambda>(offs, g3).
            Inr (aii # offs, g3)))
     (case y of (aii0, g1) \<Rightarrow>
       let (aii, g2) =
             (if aii0 = 0 then
                (let (r, g') = rnd_random L2 g1 in (if r < 1 / 2 then 1 else - 1, g'))
              else (aii0, g1))
       in ebind (off_entries L2 density off_range (n - (i + 1)) g2) (\<lambda>(offs, g3).
            Inr (aii # offs, g3)))"
  proof (cases "a = 0")
    case True
    let ?v = "if r < 1 / 2 then 1 else - 1 :: int"
    from off_entries_stream[OF assms(1) r(3)]
    have "rel_sum (=) (rel_prod (=) R)
          (ebind (off_entries L1 density off_range (n - (i + 1)) g') (\<lambda>(offs, g3). Inr (?v # offs, g3)))
          (ebind (off_entries L2 density off_range (n - (i + 1)) h') (\<lambda>(offs, g3). Inr (?v # offs, g3)))"
      by (rule ebind_rel) auto
    then show ?thesis using True by (simp add: x r)
  next
    case False
    from off_entries_stream[OF assms(1) x(3)]
    have "rel_sum (=) (rel_prod (=) R)
          (ebind (off_entries L1 density off_range (n - (i + 1)) g1) (\<lambda>(offs, g3). Inr (a # offs, g3)))
          (ebind (off_entries L2 density off_range (n - (i + 1)) h1) (\<lambda>(offs, g3). Inr (a # offs, g3)))"
      by (rule ebind_rel) auto
    then show ?thesis using False by (simp add: x)
  qed
qed

lemma gen_rows_stream:
  assumes "same_stream (R :: 'g \<Rightarrow> 'h \<Rightarrow> bool) L1 L2"
  shows "R g h \<Longrightarrow>
    rel_sum (=) (rel_prod (=) R) (gen_rows L1 n density diag_range off_range js g)
                                 (gen_rows L2 n density diag_range off_range js h)"
proof (induction js arbitrary: g h)
  case Nil
  then show ?case by simp
next
  case (Cons j js)
  have "rel_sum (=) (rel_prod (=) R)
     (ebind (gen_row L1 n density diag_range off_range j g) (\<lambda>(row, g1).
       ebind (gen_rows L1 n density diag_range off_range js g1) (\<lambda>(rows, g2).
         Inr (row # rows, g2))))
     (ebind (gen_row L2 n density diag_range off_range j h) (\<lambda>(row, g1).
       ebind (gen_rows L2 n density diag_range off_range js g1) (\<lambda>(rows, g2).
         Inr (row # rows, g2))))"
  proof (rule ebind_rel[OF gen_row_stream[OF assms Cons.prems]])
    fix x :: "int list \<times> 'g" and y :: "int list \<times> 'h" assume "rel_prod (=) R x y"
    then obtain row g1 h1 where x: "x = (row, g1)" "y = (row, h1)" "R g1 h1" by (rule rel_pairE)
    have "rel_sum (=) (rel_prod (=) R)
            (ebind (gen_rows L1 n density diag_range off_range js g1) (\<lambda>(rows, g2).
               Inr (row # rows, g2)))
            (ebind (gen_rows L2 n density diag_range off_range js h1) (\<lambda>(rows, g2).
               Inr (row # rows, g2)))"
      by (rule ebind_rel[OF Cons.IH[OF x(3)]]) auto
    then show "rel_sum (=) (rel_prod (=) R)
            (case x of (row, g1) \<Rightarrow>
               ebind (gen_rows L1 n density diag_range off_range js g1) (\<lambda>(rows, g2).
                 Inr (row # rows, g2)))
            (case y of (row, g1) \<Rightarrow>
               ebind (gen_rows L2 n density diag_range off_range js g1) (\<lambda>(rows, g2).
                 Inr (row # rows, g2)))"
      by (simp add: x)
  qed
  then show ?case by simp
qed

lemma gen_A_triangular_stream:
  assumes "same_stream R L1 L2" and "R g h"
  shows "rel_sum (=) (rel_prod (=) R) (gen_A_triangular L1 n g density diag_range off_range)
                                      (gen_A_triangular L2 n h density diag_range off_range)"
  unfolding gen_A_triangular_def by (rule gen_rows_stream[OF assms])

subsection \<open>A run evaluated\<close>

lemma demo_rows:
  "gen_A_triangular demo_rng 4 22 (1 / 5) (- 10, 10) (- 5, 5)
     = Inr ([[- 9, 0, 0, 0], [- 5, 0, 0], [- 2, 4], [1]], 33)"
proof -
  have u: "[0..<4] = [0, 1, 2, 3]" by (simp add: upt_conv_Cons)
  show ?thesis
    by (simp add: gen_A_triangular_def gen_row_def ebind_def py_randint_def demo_rng_def u
        numeral_3_eq_3 numeral_2_eq_2)
qed

lemma demo_text:
  "write_instance 4 [{2}, {2, 3, 4}, {1, 2}, {4}] [[- 9, 0, 0, 0], [- 5, 0, 0], [- 2, 4], [1]]
     = Inr (''4'' @ [newline] @ ''1 3 2 1'' @ [newline]
            @ ''2'' @ [newline] @ ''2 3 4'' @ [newline] @ ''1 2'' @ [newline] @ ''4'' @ [newline]
            @ ''-9 0 0 0'' @ [newline] @ ''-5 0 0'' @ [newline] @ ''-2 4'' @ [newline]
            @ ''1'' @ [newline])"
  by code_simp

subsection \<open>Two runs with the same arguments\<close>

text \<open>
  Claim C9. Take two runs of the generator in single-instance mode with the same \<open>n\<close>,
  pattern, density and seed. Each run has its own process (its own string hash), its own
  order of iterating a set, its own generator object and its own output path. If the
  two generators built from the seed return the same values call after call (the
  library's guarantee for a seeded \<open>random.Random\<close>, here \<open>same_stream\<close>), then the two
  runs produce the same covering sets, the same rows and the same text of the file, or
  fail with the same error; with the same output path they write the same file at the
  same place. (Without \<open>--seed\<close> the seed is derived from \<open>hash(pattern)\<close>, which is the
  run's own.)
\<close>

theorem generation_deterministic:
  assumes "faithful_iter (env_iter e1)" and "faithful_iter (env_iter e2)"
    and "same_stream R (env_lib e1) (env_lib e2)"
    and "R (env_new e1 seed) (env_new e2 seed)"
    and "arg_n a1 = arg_n a2" and "arg_pattern a1 = arg_pattern a2"
    and "arg_rho a1 = arg_rho a2"
    and "arg_seed a1 = Some seed" and "arg_seed a2 = Some seed"
  shows "outcome (main_single e1 a1) = outcome (main_single e2 a2) \<and>
         (arg_output a1 = arg_output a2 \<longrightarrow> main_single e1 a1 = main_single e2 a2)"
proof (cases "arg_n a2")
  case None
  then show ?thesis using assms(5) by (simp add: main_single_def outcome_def)
next
  case (Some n)
  show ?thesis
  proof (cases "arg_pattern a2")
    case None
    then show ?thesis using assms(5,6) Some by (simp add: main_single_def outcome_def)
  next
    case pat: (Some pattern)
    let ?b1 = "build_sets (env_lib e1) n pattern (env_new e1 seed)"
    let ?b2 = "build_sets (env_lib e2) n pattern (env_new e2 seed)"
    let ?path = "\<lambda>a. case arg_output a of
                       Some p \<Rightarrow> (if p = [] then file_name n pattern seed else p)
                     | None \<Rightarrow> file_name n pattern seed"
    have m1: "main_single e1 a1 =
        ebind ?b1 (\<lambda>(S, rng1).
          ebind (gen_A_triangular (env_lib e1) n rng1 (arg_rho a2) (- 10, 10) (- 5, 5))
            (\<lambda>(A_rows, rng2).
               ebind (write_instance_iter (env_iter e1) n S A_rows) (\<lambda>text.
                 Inr \<lparr>run_path = ?path a1, run_text = text, run_sets = S, run_rows = A_rows\<rparr>)))"
      using assms(5,6,7,8) Some pat
      by (simp add: main_single_def Let_def build_sets_iter_eq[OF assms(1)])
    have m2: "main_single e2 a2 =
        ebind ?b2 (\<lambda>(S, rng1).
          ebind (gen_A_triangular (env_lib e2) n rng1 (arg_rho a2) (- 10, 10) (- 5, 5))
            (\<lambda>(A_rows, rng2).
               ebind (write_instance_iter (env_iter e2) n S A_rows) (\<lambda>text.
                 Inr \<lparr>run_path = ?path a2, run_text = text, run_sets = S, run_rows = A_rows\<rparr>)))"
      using assms(9) Some pat
      by (simp add: main_single_def Let_def build_sets_iter_eq[OF assms(2)])
    have b: "rel_sum (=) (rel_prod (=) R) ?b1 ?b2"
      by (rule build_sets_stream[OF assms(3,4)])
    show ?thesis
    proof (cases ?b1)
      case (Inl e)
      then have "?b2 = Inl e" using b by (cases ?b2) simp_all
      then show ?thesis unfolding m1 m2 using Inl by (simp add: ebind_def outcome_def)
    next
      case (Inr x)
      then obtain y where y: "?b2 = Inr y" and xy: "rel_prod (=) R x y"
        using b by (cases ?b2) simp_all
      from xy obtain S g1 h1 where x: "x = (S, g1)" "y = (S, h1)" "R g1 h1" by (rule rel_pairE)
      have fin: "\<forall>s\<in>set S. finite s" using build_sets_finite[of "env_lib e1" n pattern _ S g1] Inr x
        by simp
      have w: "write_instance_iter (env_iter e1) n S rows = write_instance n S rows"
              "write_instance_iter (env_iter e2) n S rows = write_instance n S rows" for rows
        using write_instance_iter_eq[OF assms(1) fin] write_instance_iter_eq[OF assms(2) fin]
        by simp_all
      let ?r1 = "gen_A_triangular (env_lib e1) n g1 (arg_rho a2) (- 10, 10) (- 5, 5)"
      let ?r2 = "gen_A_triangular (env_lib e2) n h1 (arg_rho a2) (- 10, 10) (- 5, 5)"
      have r: "rel_sum (=) (rel_prod (=) R) ?r1 ?r2"
        by (rule gen_A_triangular_stream[OF assms(3) x(3)])
      show ?thesis
      proof (cases ?r1)
        case (Inl e)
        then have "?r2 = Inl e" using r by (cases ?r2) simp_all
        then show ?thesis unfolding m1 m2 using Inl Inr y x by (simp add: ebind_def outcome_def)
      next
        case rr: (Inr u)
        then obtain v where v: "?r2 = Inr v" and uv: "rel_prod (=) R u v"
          using r by (cases ?r2) simp_all
        from uv obtain rows g2 h2 where u: "u = (rows, g2)" "v = (rows, h2)" by (rule rel_pairE)
        show ?thesis
          unfolding m1 m2 using Inr y x rr v u
          by (cases "write_instance n S rows") (simp_all add: ebind_def outcome_def w)
      qed
    qed
  qed
qed

text \<open>The example source seeded with 5, \<open>n = 4\<close>, the uniform pattern, density 1/5:
  a run that names no output path, and a run in another process (another string hash,
  sets iterated in descending order, the generator in its other representation) that
  writes to \<open>copy.txt\<close>.\<close>

lemma demo_streams: "same_stream (\<lambda>g h. h = - int g) demo_rng demo_rng_neg"
  by (simp add: same_stream_def demo_rng_def demo_rng_neg_def)

lemma demo_orders:
  "faithful_iter sorted_list_of_set" "faithful_iter (\<lambda>s. rev (sorted_list_of_set s))"
  by (simp_all add: faithful_iter_def)

theorem generation_deterministic_witness:
  "faithful_iter (env_iter demo_env) \<and> faithful_iter (env_iter demo_env_other) \<and>
   same_stream (\<lambda>g h. h = - int g) (env_lib demo_env) (env_lib demo_env_other) \<and>
   env_new demo_env_other 5 = - int (env_new demo_env 5) \<and>
   arg_n (demo_args None) = arg_n (demo_args (Some ''copy.txt'')) \<and>
   arg_pattern (demo_args None) = arg_pattern (demo_args (Some ''copy.txt'')) \<and>
   arg_rho (demo_args None) = arg_rho (demo_args (Some ''copy.txt'')) \<and>
   arg_seed (demo_args None) = Some 5 \<and>
   arg_seed (demo_args (Some ''copy.txt'')) = Some 5 \<and>
   outcome (main_single demo_env (demo_args None))
     = Inr ([{2}, {2, 3, 4}, {1, 2}, {4}],
            [[- 9, 0, 0, 0], [- 5, 0, 0], [- 2, 4], [1]],
            ''4'' @ [newline] @ ''1 3 2 1'' @ [newline]
            @ ''2'' @ [newline] @ ''2 3 4'' @ [newline] @ ''1 2'' @ [newline] @ ''4'' @ [newline]
            @ ''-9 0 0 0'' @ [newline] @ ''-5 0 0'' @ [newline] @ ''-2 4'' @ [newline]
            @ ''1'' @ [newline]) \<and>
   outcome (main_single demo_env_other (demo_args (Some ''copy.txt'')))
     = outcome (main_single demo_env (demo_args None))"
proof -
  have f: "faithful_iter (env_iter demo_env)" "faithful_iter (env_iter demo_env_other)"
    by (simp_all add: demo_env_def demo_env_other_def demo_orders)
  have s: "same_stream (\<lambda>g h. h = - int g) (env_lib demo_env) (env_lib demo_env_other)"
    by (simp add: demo_env_def demo_env_other_def demo_streams)
  have n: "env_new demo_env_other 5 = - int (env_new demo_env 5)"
    by (simp add: demo_env_def demo_env_other_def)
  have h: "arg_n (demo_args None) = arg_n (demo_args (Some ''copy.txt''))"
      "arg_pattern (demo_args None) = arg_pattern (demo_args (Some ''copy.txt''))"
      "arg_rho (demo_args None) = arg_rho (demo_args (Some ''copy.txt''))"
      "arg_seed (demo_args None) = Some 5"
      "arg_seed (demo_args (Some ''copy.txt'')) = Some 5"
    by (simp_all add: demo_args_def)
  have w: "write_instance_iter sorted_list_of_set 4 [{2}, {2, 3, 4}, {1, 2}, {4}] rows
             = write_instance 4 [{2}, {2, 3, 4}, {1, 2}, {4}] rows" for rows
    by (rule write_instance_iter_eq[OF demo_orders(1)]) simp
  have r: "outcome (main_single demo_env (demo_args None))
     = Inr ([{2}, {2, 3, 4}, {1, 2}, {4}],
            [[- 9, 0, 0, 0], [- 5, 0, 0], [- 2, 4], [1]],
            ''4'' @ [newline] @ ''1 3 2 1'' @ [newline]
            @ ''2'' @ [newline] @ ''2 3 4'' @ [newline] @ ''1 2'' @ [newline] @ ''4'' @ [newline]
            @ ''-9 0 0 0'' @ [newline] @ ''-5 0 0'' @ [newline] @ ''-2 4'' @ [newline]
            @ ''1'' @ [newline])"
    by (simp add: main_single_def demo_env_def demo_args_def outcome_def ebind_def Let_def
        build_sets_iter_eq[OF demo_orders(1)] demo_build_sets demo_rows w demo_text)
  from generation_deterministic [OF f s n h]
  have e: "outcome (main_single demo_env_other (demo_args (Some ''copy.txt'')))
     = outcome (main_single demo_env (demo_args None))"
    by simp
  from f s n h r e show ?thesis by (intro conjI)
qed

subsection \<open>Without a seed\<close>

text \<open>
  The seed is needed. A command line without \<open>--seed\<close> takes its seed from
  \<open>hash(pattern)\<close>, so two processes whose string hashes differ seed their generators
  differently. Below, the same command line (\<open>n = 4\<close>, the uniform pattern, no seed) in
  two processes that differ in the string hash only; the generator's first state is
  the seed counted from \<open>20250818\<close>, which keeps the states of the example small. The
  two runs build different covering sets.
\<close>

lemma demo_build_sets_other:
  "build_sets demo_rng 4 ''uniform'' 6 = Inr ([{3}, {1, 2, 3, 4}, {1}, {3, 4}], 23)"
proof -
  have p: "pattern_uniform demo_rng 4 6 = Inr (uniform_loop demo_rng (1 / 2) 4 4 6)"
    by (simp add: pattern_uniform_def avg_size_4)
  have l: "uniform_loop demo_rng (1 / 2) 4 4 6 = ([{}, {1, 2, 3, 4}, {1}, {3, 4}], 22)"
    by code_simp
  have e: "enforce_coverage [{}, {1, 2, 3, 4}, {1}, {3, 4}] 4 = Inr [{}, {1, 2, 3, 4}, {1}, {3, 4}]"
    by code_simp
  have f: "nonempty_fix demo_rng [{}, {1, 2, 3, 4}, {1}, {3, 4}] 4 22
             = Inr ([{3}, {1, 2, 3, 4}, {1}, {3, 4}], 23)"
    by (simp add: ebind_def py_randrange_def demo_rng_def)
  show ?thesis
    by (simp add: build_sets_def p l e f ebind_def del: nonempty_fix.simps)
qed

lemma unseeded_runs_differ:
  "outcome (main_single (demo_env\<lparr>env_new := \<lambda>seed. nat (seed - 20250818)\<rparr>)
              ((demo_args None)\<lparr>arg_seed := None\<rparr>))
   \<noteq> outcome (main_single (demo_env\<lparr>env_hash := \<lambda>p. 1, env_new := \<lambda>seed. nat (seed - 20250818)\<rparr>)
              ((demo_args None)\<lparr>arg_seed := None\<rparr>))"
proof -
  let ?a = "(demo_args None)\<lparr>arg_seed := None\<rparr>"
  let ?e1 = "demo_env\<lparr>env_new := \<lambda>seed. nat (seed - 20250818)\<rparr>"
  let ?e2 = "demo_env\<lparr>env_hash := \<lambda>p. 1, env_new := \<lambda>seed. nat (seed - 20250818)\<rparr>"
  have w: "write_instance_iter sorted_list_of_set 4 [{2}, {2, 3, 4}, {1, 2}, {4}] rows
             = write_instance 4 [{2}, {2, 3, 4}, {1, 2}, {4}] rows" for rows
    by (rule write_instance_iter_eq[OF demo_orders(1)]) simp
  have r1: "\<exists>out. outcome (main_single ?e1 ?a)
     = Inr ([{2}, {2, 3, 4}, {1, 2}, {4}], [[- 9, 0, 0, 0], [- 5, 0, 0], [- 2, 4], [1]], out)"
    by (simp add: main_single_def demo_env_def demo_args_def outcome_def ebind_def Let_def
        build_sets_iter_eq[OF demo_orders(1)] demo_build_sets demo_rows w demo_text)
  have r2: "case outcome (main_single ?e2 ?a) of
              Inl e \<Rightarrow> True | Inr (S, rows, out) \<Rightarrow> S = [{3}, {1, 2, 3, 4}, {1}, {3, 4}]"
    by (simp add: main_single_def demo_env_def demo_args_def outcome_def ebind_def Let_def
        build_sets_iter_eq[OF demo_orders(1)] demo_build_sets_other
        split: sum.splits prod.splits)
  have "[{2}, {2, 3, 4}, {1, 2}, {4}] \<noteq> [{3 :: int}, {1, 2, 3, 4}, {1}, {3, 4}]" by simp
  with r1 r2 show ?thesis by (auto split: sum.splits prod.splits)
qed

end
